theory Spec2Isabelle
  imports Main "HOL-Library.Sublist" "HOL-Library.Word"
begin

section \<open>Document trees\<close>

text \<open>
  The script \<^verbatim>\<open>scripts/expand-refs.py\<close> works on the value that \<^verbatim>\<open>json.load\<close> or
  \<^verbatim>\<open>yaml.safe_load\<close> returns: nested Python dicts, lists and scalars. A dict keeps its
  keys in insertion order and has no key twice, so it is an association list whose keys
  are distinct (\<open>wf_json\<close> below); keys are strings. A float is its 64-bit pattern: the
  script never looks inside a number.
\<close>

type_synonym pyfloat = "64 word"

datatype json =
    JNull
  | JBool bool
  | JInt int
  | JFloat pyfloat
  | JStr string
  | JList "json list"
  | JDict "(string \<times> json) list"

fun wf_json :: "json \<Rightarrow> bool" where
  "wf_json (JDict kvs) = (distinct (map fst kvs) \<and> (\<forall>v \<in> snd ` set kvs. wf_json v))"
| "wf_json (JList xs) = (\<forall>x \<in> set xs. wf_json x)"
| "wf_json _ = True"

text \<open>A tree is free of references when no dict in it has the key \<^verbatim>\<open>$ref\<close>.\<close>

fun ref_free :: "json \<Rightarrow> bool" where
  "ref_free (JDict kvs) = (''$ref'' \<notin> fst ` set kvs \<and> (\<forall>v \<in> snd ` set kvs. ref_free v))"
| "ref_free (JList xs) = (\<forall>x \<in> set xs. ref_free x)"
| "ref_free _ = True"

section \<open>Exceptions and the interpreter's built-ins\<close>

text \<open>
  Every exception the resolver can raise is a value. \<open>ValueError\<close> carries the message
  the script itself formats; the others are raised by the interpreter: \<open>KeyError\<close> by
  \<^verbatim>\<open>current[part]\<close> on a dict, \<open>IndexError\<close> by \<^verbatim>\<open>current[int(part)]\<close> on a list,
  \<open>IntValueError\<close> by \<^verbatim>\<open>int(part)\<close>, and \<open>AttributeError\<close> by \<^verbatim>\<open>ref_path.startswith\<close>
  when the value under \<^verbatim>\<open>$ref\<close> is not a string.
\<close>

datatype error =
    ValueError string
  | KeyError string
  | IndexError int
  | IntValueError string
  | AttributeError json

text \<open>
  What the script leaves to the interpreter is a parameter of the model: \<open>py_int\<close> is
  \<^verbatim>\<open>int(s)\<close> (\<open>None\<close> where it raises), \<open>py_str\<close> is \<^verbatim>\<open>str(v)\<close> of a value that is not a
  string (an f-string formats it so), and \<open>py_exc_str\<close> is \<^verbatim>\<open>str(e)\<close> of an exception
  the interpreter raised. The theorems hold for every value of this record.
\<close>

record builtins =
  py_int :: "string \<Rightarrow> int option"
  py_str :: "json \<Rightarrow> string"
  py_exc_str :: "error \<Rightarrow> string"

definition MAX_DEPTH :: nat where
  "MAX_DEPTH = 10"

section \<open>Strings\<close>

text \<open>\<^verbatim>\<open>str(i)\<close> of a list index: its decimal digits.\<close>

fun str_of_nat :: "nat \<Rightarrow> string" where
  "str_of_nat n =
     (if n < 10 then [char_of (48 + n)]
      else str_of_nat (n div 10) @ [char_of (48 + n mod 10)])"

declare str_of_nat.simps [simp del]

text \<open>\<^verbatim>\<open>s.split(sep)\<close> for a one-character separator: never empty, \<open>[[]]\<close> on \<open>[]\<close>.\<close>

fun split_acc :: "char \<Rightarrow> string \<Rightarrow> string \<Rightarrow> string list" where
  "split_acc sep cur [] = [rev cur]"
| "split_acc sep cur (c # cs) =
     (if c = sep then rev cur # split_acc sep [] cs else split_acc sep (c # cur) cs)"

definition str_split :: "char \<Rightarrow> string \<Rightarrow> string list" where
  "str_split sep s = split_acc sep [] s"

text \<open>
  \<^verbatim>\<open>s.replace(old, new)\<close>: the occurrences of \<open>old\<close> are found from the left and do not
  overlap; an empty \<open>old\<close> matches before every character and at the end.
\<close>

function str_replace :: "string \<Rightarrow> string \<Rightarrow> string \<Rightarrow> string" where
  "str_replace old new s =
     (if old = [] then new @ concat (map (\<lambda>c. c # new) s)
      else if s = [] then []
      else if prefix old s then new @ str_replace old new (drop (length old) s)
      else hd s # str_replace old new (tl s))"
  by pat_completeness auto
termination
  by (relation "measure (\<lambda>(old, new, s). length s)") (auto simp: neq_Nil_conv)

declare str_replace.simps [simp del]

definition str_startswith :: "string \<Rightarrow> string \<Rightarrow> bool" where
  "str_startswith s p = prefix p s"

section \<open>Dicts and lists\<close>

text \<open>
  \<^verbatim>\<open>d[k] = v\<close> keeps the position of a key that is already there and appends a new
  one; \<^verbatim>\<open>{**a, **b}\<close> stores the items of \<open>a\<close>, then those of \<open>b\<close>, into a new dict.
\<close>

definition dict_set :: "(string \<times> 'v) list \<Rightarrow> string \<Rightarrow> 'v \<Rightarrow> (string \<times> 'v) list" where
  "dict_set kvs k v =
     (if k \<in> fst ` set kvs then map (\<lambda>(k', v'). if k' = k then (k', v) else (k', v')) kvs
      else kvs @ [(k, v)])"

definition dict_merge ::
  "(string \<times> 'v) list \<Rightarrow> (string \<times> 'v) list \<Rightarrow> (string \<times> 'v) list" where
  "dict_merge a b = foldl (\<lambda>acc (k, v). dict_set acc k v) [] (a @ b)"

text \<open>\<^verbatim>\<open>xs[i]\<close>: a negative index counts from the end; out of range raises.\<close>

definition list_get :: "'v list \<Rightarrow> int \<Rightarrow> error + 'v" where
  "list_get xs i =
     (if 0 \<le> i \<and> i < int (length xs) then Inr (xs ! nat i)
      else if i < 0 \<and> - int (length xs) \<le> i then Inr (xs ! nat (int (length xs) + i))
      else Inl (IndexError i))"

text \<open>On values without identity a deep copy is the value itself.\<close>

definition deepcopy :: "json \<Rightarrow> json" where
  "deepcopy v = v"

section \<open>The pointer resolver\<close>

text \<open>Line 24: \<^verbatim>\<open>part.replace('~1', '/').replace('~0', '~')\<close>.\<close>

definition unescape :: "string \<Rightarrow> string" where
  "unescape part = str_replace ''~0'' ''~'' (str_replace ''~1'' ''/'' part)"

text \<open>The loop of \<^verbatim>\<open>resolve_ref_pointer\<close> over the segments of the pointer.\<close>

fun resolve_parts :: "builtins \<Rightarrow> string \<Rightarrow> json \<Rightarrow> string list \<Rightarrow> error + json" where
  "resolve_parts B ref_path current [] = Inr current"
| "resolve_parts B ref_path current (part # parts) =
     (let part' = unescape part in
      case current of
        JDict kvs \<Rightarrow>
          (case map_of kvs part' of
             None \<Rightarrow> Inl (KeyError part')
           | Some v \<Rightarrow> resolve_parts B ref_path v parts)
      | JList xs \<Rightarrow>
          (case py_int B part' of
             None \<Rightarrow> Inl (IntValueError part')
           | Some i \<Rightarrow>
               (case list_get xs i of
                  Inl e \<Rightarrow> Inl e
                | Inr v \<Rightarrow> resolve_parts B ref_path v parts))
      | _ \<Rightarrow> Inl (ValueError (''Cannot resolve path '' @ ref_path)))"

definition resolve_ref_pointer :: "builtins \<Rightarrow> json \<Rightarrow> json \<Rightarrow> error + json" where
  "resolve_ref_pointer B ref root_doc =
     (case ref of
        JStr ref_path \<Rightarrow>
          if \<not> str_startswith ref_path ''#/''
          then Inl (ValueError (''External references not supported: '' @ ref_path))
          else resolve_parts B ref_path root_doc (str_split CHR ''/'' (drop 2 ref_path))
      | _ \<Rightarrow> Inl (AttributeError ref))"

section \<open>The expansion engine\<close>

text \<open>\<^verbatim>\<open>f"{v}"\<close>: a string as it is, any other value through \<^verbatim>\<open>str\<close>.\<close>

definition format_value :: "builtins \<Rightarrow> json \<Rightarrow> string" where
  "format_value B v = (case v of JStr s \<Rightarrow> s | _ \<Rightarrow> py_str B v)"

definition str_of_error :: "builtins \<Rightarrow> error \<Rightarrow> string" where
  "str_of_error B e = (case e of ValueError m \<Rightarrow> m | _ \<Rightarrow> py_exc_str B e)"

text \<open>The dict \<^verbatim>\<open>{"type": "object", "description": d}\<close> of the three early returns.\<close>

definition placeholder :: "string \<Rightarrow> json" where
  "placeholder d = JDict [(''type'', JStr ''object''), (''description'', JStr d)]"

definition other_props :: "(string \<times> 'v) list \<Rightarrow> (string \<times> 'v) list" where
  "other_props kvs = filter (\<lambda>(k, v). k \<noteq> ''$ref'') kvs"

text \<open>Lines 67 to 69: the sibling keys are merged only into a dict.\<close>

definition merge_props :: "json \<Rightarrow> (string \<times> json) list \<Rightarrow> json" where
  "merge_props resolved props =
     (if props \<noteq> [] then
        (case resolved of
           JDict rkvs \<Rightarrow> JDict (dict_merge rkvs props)
         | _ \<Rightarrow> resolved)
      else resolved)"

text \<open>
  \<^verbatim>\<open>expand_refs(obj, root_doc, path, depth, visited_paths)\<close>. Every recursive call
  receives \<^verbatim>\<open>visited_paths.copy()\<close>, so the \<^verbatim>\<open>add\<close> of a call is seen by its own callee
  only: the set is passed by value. The \<^verbatim>\<open>try\<close> block catches every exception of the
  resolver; nothing else in it raises.
\<close>

function expand_refs ::
  "builtins \<Rightarrow> json \<Rightarrow> json \<Rightarrow> string \<Rightarrow> nat \<Rightarrow> string set \<Rightarrow> json" where
  "expand_refs B obj root_doc path depth visited_paths =
     (if depth > MAX_DEPTH then placeholder (''Max expansion depth reached at '' @ path)
      else case obj of
        JDict kvs \<Rightarrow>
          (case map_of kvs ''$ref'' of
             Some ref_path \<Rightarrow>
               (let tracking_key = path @ '':'' @ format_value B ref_path in
                if tracking_key \<in> visited_paths
                then placeholder (''Circular reference: '' @ format_value B ref_path)
                else
                  (case resolve_ref_pointer B ref_path root_doc of
                     Inl e \<Rightarrow>
                       placeholder (''Error resolving '' @ format_value B ref_path @ '': ''
                                     @ str_of_error B e)
                   | Inr target \<Rightarrow>
                       expand_refs B (merge_props (deepcopy target) (other_props kvs)) root_doc
                         (path @ ''->'' @ format_value B ref_path) (depth + 1)
                         (insert tracking_key visited_paths)))
           | None \<Rightarrow>
               JDict (map (\<lambda>(key, v).
                        (key, expand_refs B v root_doc (path @ ''.'' @ key) depth visited_paths))
                      kvs))
      | JList items \<Rightarrow>
          JList (map (\<lambda>(i, item).
                   expand_refs B item root_doc (path @ ''['' @ str_of_nat i @ '']'') depth
                     visited_paths)
                 (enumerate 0 items))
      | _ \<Rightarrow> obj)"
  by pat_completeness auto
termination
proof (relation "measures [\<lambda>(B, obj, root_doc, path, depth, visited_paths). Suc MAX_DEPTH - depth,
                           \<lambda>(B, obj, root_doc, path, depth, visited_paths). size obj]",
       goal_cases)
  case 1
  show ?case by simp
next
  case (2 B obj root_doc path depth visited_paths items x i item)
  from 2 have "item \<in> set items"
    by (auto simp: in_set_enumerate_eq)
  then have "size item < Suc (size_list size items)"
    by (induction items) auto
  with 2 show ?case by simp
next
  case (3 B obj root_doc path depth visited_paths kvs x key v)
  from 3 have "(key, v) \<in> set kvs" by simp
  then have "size v < Suc (size_list (size_prod (\<lambda>_. 0) size) kvs)"
    by (induction kvs) auto
  with 3 show ?case by simp
next
  case 4
  then show ?case by auto
qed

declare expand_refs.simps [simp del]

section \<open>The recursive calls\<close>

text \<open>
  One step of the recursion, for a fixed \<open>B\<close> and \<open>root_doc\<close>, on the other four
  arguments \<open>(obj, path, depth, visited_paths)\<close>: \<open>call B root_doc c c'\<close> holds when
  the body of \<open>expand_refs\<close> on the arguments \<open>c\<close> calls itself on \<open>c'\<close>. The three
  rules are the three call sites: line 72 (following a reference), line 79 (a value of a
  dict) and line 84 (an item of a list).
\<close>

type_synonym call_args = "json \<times> string \<times> nat \<times> string set"

inductive call :: "builtins \<Rightarrow> json \<Rightarrow> call_args \<Rightarrow> call_args \<Rightarrow> bool"
  for B :: builtins and root_doc :: json where
  call_ref:
    "depth \<le> MAX_DEPTH \<Longrightarrow> map_of kvs ''$ref'' = Some ref_path \<Longrightarrow>
     path @ '':'' @ format_value B ref_path \<notin> visited_paths \<Longrightarrow>
     resolve_ref_pointer B ref_path root_doc = Inr target \<Longrightarrow>
     call B root_doc (JDict kvs, path, depth, visited_paths)
       (merge_props (deepcopy target) (other_props kvs),
        path @ ''->'' @ format_value B ref_path, depth + 1,
        insert (path @ '':'' @ format_value B ref_path) visited_paths)"
| call_value:
    "depth \<le> MAX_DEPTH \<Longrightarrow> map_of kvs ''$ref'' = None \<Longrightarrow> (key, v) \<in> set kvs \<Longrightarrow>
     call B root_doc (JDict kvs, path, depth, visited_paths)
       (v, path @ ''.'' @ key, depth, visited_paths)"
| call_item:
    "depth \<le> MAX_DEPTH \<Longrightarrow> (i, item) \<in> set (enumerate 0 items) \<Longrightarrow>
     call B root_doc (JList items, path, depth, visited_paths)
       (item, path @ ''['' @ str_of_nat i @ '']'', depth, visited_paths)"

section \<open>Built-ins and documents of the examples\<close>

text \<open>
  One value of the record \<open>builtins\<close>, on which the examples run. It agrees with
  CPython on an index written in decimal digits with an optional minus sign, on a key
  without quotes, backslashes or control characters, and on \<^verbatim>\<open>None\<close>, booleans and
  integers; for a float, a list or a dict \<open>sample_str\<close> gives the name of the type in
  angle brackets, which CPython does not.
\<close>

definition quoted :: "string \<Rightarrow> string" where
  "quoted s = CHR 0x27 # s @ [CHR 0x27]"

fun type_name :: "json \<Rightarrow> string" where
  "type_name JNull = ''NoneType''"
| "type_name (JBool b) = ''bool''"
| "type_name (JInt i) = ''int''"
| "type_name (JFloat x) = ''float''"
| "type_name (JStr s) = ''str''"
| "type_name (JList xs) = ''list''"
| "type_name (JDict kvs) = ''dict''"

fun nat_of_digits :: "nat \<Rightarrow> string \<Rightarrow> nat option" where
  "nat_of_digits acc [] = Some acc"
| "nat_of_digits acc (c # cs) =
     (let n = (of_char c :: nat) in
      if 48 \<le> n \<and> n \<le> 57 then nat_of_digits (10 * acc + (n - 48)) cs else None)"

definition decimal_int :: "string \<Rightarrow> int option" where
  "decimal_int s =
     (case s of
        [] \<Rightarrow> None
      | c # cs \<Rightarrow>
          if c = CHR ''-''
          then (if cs = [] then None else map_option (\<lambda>n. - int n) (nat_of_digits 0 cs))
          else map_option int (nat_of_digits 0 s))"

definition sample_str :: "json \<Rightarrow> string" where
  "sample_str v =
     (case v of
        JNull \<Rightarrow> ''None''
      | JBool b \<Rightarrow> (if b then ''True'' else ''False'')
      | JInt i \<Rightarrow> (if i < 0 then ''-'' @ str_of_nat (nat (- i)) else str_of_nat (nat i))
      | _ \<Rightarrow> ''<'' @ type_name v @ ''>'')"

definition sample_exc_str :: "error \<Rightarrow> string" where
  "sample_exc_str e =
     (case e of
        ValueError m \<Rightarrow> m
      | KeyError k \<Rightarrow> quoted k
      | IndexError i \<Rightarrow> ''list index out of range''
      | IntValueError s \<Rightarrow> ''invalid literal for int() with base 10: '' @ quoted s
      | AttributeError v \<Rightarrow>
          quoted (type_name v) @ '' object has no attribute '' @ quoted ''startswith'')"

definition sample_builtins :: builtins where
  "sample_builtins =
     \<lparr>py_int = decimal_int, py_str = sample_str, py_exc_str = sample_exc_str\<rparr>"

text \<open>
  A document with a reference that resolves (and has a sibling key), one to a schema
  that does not exist, and an external one.
\<close>

definition petstore :: json where
  "petstore =
     JDict
       [(''paths'', JDict
          [(''/pets'', JDict
             [(''schema'', JDict [(''$ref'', JStr ''#/components/schemas/Pet''),
                                  (''description'', JStr ''override'')]),
              (''tags'', JList [JStr ''pets'',
                                JDict [(''$ref'', JStr ''#/components/schemas/DoesNotExist'')],
                                JDict [(''$ref'', JStr ''other.yaml#/Pet'')]])])]),
        (''components'', JDict
          [(''schemas'', JDict
             [(''Pet'', JDict [(''type'', JStr ''object''),
                               (''description'', JStr ''original'')])])])]"

text \<open>A document without any reference.\<close>

definition plain_doc :: json where
  "plain_doc =
     JDict
       [(''openapi'', JStr ''3.0.0''),
        (''info'', JDict [(''title'', JStr ''API''), (''version'', JInt 1)]),
        (''tags'', JList [JStr ''a'', JNull, JBool True, JList [], JDict []])]"

text \<open>The schema \<open>A\<close> that is a reference to itself.\<close>

definition self_ref_doc :: json where
  "self_ref_doc =
     JDict
       [(''components'', JDict
          [(''schemas'', JDict
             [(''A'', JDict [(''$ref'', JStr ''#/components/schemas/A'')])])])]"

section \<open>Measures on the calls\<close>

text \<open>
  The pair that decreases lexicographically along every call: the dereferences still
  allowed, then the size of the object.
\<close>

definition call_measure :: "call_args \<Rightarrow> nat \<times> nat" where
  "call_measure c =
     (case c of (obj, path, depth, visited_paths) \<Rightarrow> (Suc MAX_DEPTH - depth, size obj))"

text \<open>Every tracking key in the visited set is no longer than the path of the call.\<close>

definition visited_shorter :: "call_args \<Rightarrow> bool" where
  "visited_shorter c =
     (case c of (obj, path, depth, visited_paths) \<Rightarrow>
        \<forall>k \<in> visited_paths. length k \<le> length path)"

text \<open>
  A chain of fifteen schemas: \<open>S1\<close> to \<open>S14\<close> are each a reference to the next one,
  \<open>S15\<close> is a plain schema, and a path refers to \<open>S1\<close>.
\<close>

definition schema_ref :: "string \<Rightarrow> json" where
  "schema_ref name = JDict [(''$ref'', JStr (''#/components/schemas/'' @ name))]"

definition chain_schemas :: "(string \<times> json) list" where
  "chain_schemas =
     [(''S1'', schema_ref ''S2''), (''S2'', schema_ref ''S3''), (''S3'', schema_ref ''S4''),
      (''S4'', schema_ref ''S5''), (''S5'', schema_ref ''S6''), (''S6'', schema_ref ''S7''),
      (''S7'', schema_ref ''S8''), (''S8'', schema_ref ''S9''), (''S9'', schema_ref ''S10''),
      (''S10'', schema_ref ''S11''), (''S11'', schema_ref ''S12''),
      (''S12'', schema_ref ''S13''), (''S13'', schema_ref ''S14''),
      (''S14'', schema_ref ''S15''), (''S15'', JDict [(''type'', JStr ''string'')])]"

definition chain_doc :: json where
  "chain_doc =
     JDict
       [(''paths'', JDict [(''/first'', schema_ref ''S1'')]),
        (''components'', JDict [(''schemas'', JDict chain_schemas)])]"

text \<open>
  The depth placeholder of a call whose path is \<open>path\<close> followed by the dereferences of
  the schemas \<open>names\<close>.
\<close>

definition too_deep :: "string \<Rightarrow> string list \<Rightarrow> json" where
  "too_deep path names =
     placeholder (''Max expansion depth reached at '' @ path
                   @ concat (map (\<lambda>n. ''->#/components/schemas/'' @ n) names))"

text \<open>What \<^verbatim>\<open>expand_refs(doc, doc)\<close> returns on \<open>chain_doc\<close>.\<close>

definition chain_expanded :: json where
  "chain_expanded =
     JDict
       [(''paths'', JDict
          [(''/first'', too_deep ''root.paths./first''
              [''S1'', ''S2'', ''S3'', ''S4'', ''S5'', ''S6'', ''S7'', ''S8'', ''S9'', ''S10'',
               ''S11''])]),
        (''components'', JDict
          [(''schemas'', JDict
             [(''S1'', too_deep ''root.components.schemas.S1''
                 [''S2'', ''S3'', ''S4'', ''S5'', ''S6'', ''S7'', ''S8'', ''S9'', ''S10'',
                  ''S11'', ''S12'']),
              (''S2'', too_deep ''root.components.schemas.S2''
                 [''S3'', ''S4'', ''S5'', ''S6'', ''S7'', ''S8'', ''S9'', ''S10'', ''S11'',
                  ''S12'', ''S13'']),
              (''S3'', too_deep ''root.components.schemas.S3''
                 [''S4'', ''S5'', ''S6'', ''S7'', ''S8'', ''S9'', ''S10'', ''S11'', ''S12'',
                  ''S13'', ''S14'']),
              (''S4'', too_deep ''root.components.schemas.S4''
                 [''S5'', ''S6'', ''S7'', ''S8'', ''S9'', ''S10'', ''S11'', ''S12'', ''S13'',
                  ''S14'', ''S15'']),
              (''S5'', JDict [(''type'', JStr ''string'')]),
              (''S6'', JDict [(''type'', JStr ''string'')]),
              (''S7'', JDict [(''type'', JStr ''string'')]),
              (''S8'', JDict [(''type'', JStr ''string'')]),
              (''S9'', JDict [(''type'', JStr ''string'')]),
              (''S10'', JDict [(''type'', JStr ''string'')]),
              (''S11'', JDict [(''type'', JStr ''string'')]),
              (''S12'', JDict [(''type'', JStr ''string'')]),
              (''S13'', JDict [(''type'', JStr ''string'')]),
              (''S14'', JDict [(''type'', JStr ''string'')]),
              (''S15'', JDict [(''type'', JStr ''string'')])])])]"

text \<open>The reference to the schema \<open>Pet\<close> with a sibling key, as it stands in \<open>petstore\<close>.\<close>

definition pet_ref :: json where
  "pet_ref =
     JDict [(''$ref'', JStr ''#/components/schemas/Pet''), (''description'', JStr ''override'')]"

text \<open>
  What \<^verbatim>\<open>expand_refs(doc, doc)\<close> returns on \<open>petstore\<close>; the message of the \<^verbatim>\<open>KeyError\<close>
  is the interpreter's.
\<close>

definition petstore_expanded :: "builtins \<Rightarrow> json" where
  "petstore_expanded B =
     JDict
       [(''paths'', JDict
          [(''/pets'', JDict
             [(''schema'', JDict [(''type'', JStr ''object''),
                                  (''description'', JStr ''override'')]),
              (''tags'', JList
                 [JStr ''pets'',
                  placeholder (''Error resolving #/components/schemas/DoesNotExist: ''
                                @ py_exc_str B (KeyError ''DoesNotExist'')),
                  placeholder (''Error resolving other.yaml#/Pet: ''
                                @ ''External references not supported: other.yaml#/Pet'')])])]),
        (''components'', JDict
          [(''schemas'', JDict
             [(''Pet'', JDict [(''type'', JStr ''object''),
                               (''description'', JStr ''original'')])])])]"

section \<open>The escaping of RFC 6901\<close>

text \<open>
  RFC 6901, section 3, on writing a key as a reference token: the character \<^verbatim>\<open>~\<close> is
  written \<^verbatim>\<open>~0\<close> and the character \<^verbatim>\<open>/\<close> is written \<^verbatim>\<open>~1\<close>. This function is not in the
  script; it is the encoding that the decoding of line 24 has to invert.
\<close>

definition rfc6901_escape :: "string \<Rightarrow> string" where
  "rfc6901_escape key =
     concat (map (\<lambda>c. if c = CHR ''~'' then ''~0'' else if c = CHR ''/'' then ''~1'' else [c])
       key)"

section \<open>The document in a store\<close>

text \<open>
  Whether the root document is mutated depends on which objects are shared and which
  are written, so for that question the document is a graph of objects in a store. A
  dict or a list is an object with an address, and a value is a scalar or the address
  of an object. The store is the list of the objects allocated so far; the address of
  an object is its position, and \<open>alloc\<close> appends a new object. There is no operation
  that writes an object in place, because no statement of \<^verbatim>\<open>expand_refs\<close> or
  \<^verbatim>\<open>resolve_ref_pointer\<close> does: the dict and list comprehensions, the dict displays
  and \<^verbatim>\<open>{**resolved, **other_props}\<close> each build a new object, and the one in-place
  update, \<^verbatim>\<open>visited_paths.add\<close>, is on a set of strings that is not part of the
  document (each call gets a copy), which stays a value here.
\<close>

type_synonym addr = nat

datatype val = VNull | VBool bool | VInt int | VFloat pyfloat | VStr string | VRef addr

datatype hobj = HDict "(string \<times> val) list" | HList "val list"

type_synonym heap = "hobj list"

text \<open>No Python value holds an address that is not allocated; \<open>None\<close> says so.\<close>

definition heap_get :: "heap \<Rightarrow> addr \<Rightarrow> hobj option" where
  "heap_get h a = (if a < length h then Some (h ! a) else None)"

definition alloc :: "hobj \<Rightarrow> heap \<Rightarrow> val \<times> heap" where
  "alloc ob h = (VRef (length h), h @ [ob])"

text \<open>
  The loop of a comprehension: the elements in order, each evaluated in the store that
  the one before it left.
\<close>

fun for_each :: "('a \<Rightarrow> heap \<Rightarrow> ('b \<times> heap) option) \<Rightarrow> 'a list \<Rightarrow> heap \<Rightarrow> ('b list \<times> heap) option" where
  "for_each f [] h = Some ([], h)"
| "for_each f (x # xs) h =
     (case f x h of
        None \<Rightarrow> None
      | Some (y, h1) \<Rightarrow>
          (case for_each f xs h1 of
             None \<Rightarrow> None
           | Some (ys, h2) \<Rightarrow> Some (y # ys, h2)))"

text \<open>
  The tree that a value stands for in a store, read down to \<open>n\<close> levels of containers:
  the link to the trees of the first part.
\<close>

fun tree_of :: "nat \<Rightarrow> heap \<Rightarrow> val \<Rightarrow> json option" where
  "tree_of n h VNull = Some JNull"
| "tree_of n h (VBool b) = Some (JBool b)"
| "tree_of n h (VInt i) = Some (JInt i)"
| "tree_of n h (VFloat x) = Some (JFloat x)"
| "tree_of n h (VStr s) = Some (JStr s)"
| "tree_of 0 h (VRef a) = None"
| "tree_of (Suc n) h (VRef a) =
     (case heap_get h a of
        None \<Rightarrow> None
      | Some (HDict kvs) \<Rightarrow>
          map_option JDict (those (map (\<lambda>(k, v). map_option (Pair k) (tree_of n h v)) kvs))
      | Some (HList xs) \<Rightarrow> map_option JList (those (map (tree_of n h) xs)))"

text \<open>
  \<^verbatim>\<open>copy.deepcopy\<close> is library code. It is modelled as the copy of every dict and list
  under the value into new objects, children first, down to \<open>n\<close> levels. The library
  creates a new object empty and then fills it, and it copies a part that is shared
  once (its memo), where this model copies it once per use; neither writes an object
  that existed before the call.
\<close>

fun deepcopy_h :: "nat \<Rightarrow> val \<Rightarrow> heap \<Rightarrow> (val \<times> heap) option" where
  "deepcopy_h 0 (VRef a) h = None"
| "deepcopy_h (Suc n) (VRef a) h =
     (case heap_get h a of
        None \<Rightarrow> None
      | Some (HDict kvs) \<Rightarrow>
          (case for_each (\<lambda>(k, v) h. map_option (\<lambda>(v', h'). ((k, v'), h')) (deepcopy_h n v h)) kvs h of
             None \<Rightarrow> None
           | Some (kvs', h') \<Rightarrow> Some (alloc (HDict kvs') h'))
      | Some (HList xs) \<Rightarrow>
          (case for_each (deepcopy_h n) xs h of
             None \<Rightarrow> None
           | Some (xs', h') \<Rightarrow> Some (alloc (HList xs') h')))"
| "deepcopy_h n v h = Some (v, h)"

text \<open>The resolver reads the store and allocates nothing.\<close>

fun resolve_parts_h :: "builtins \<Rightarrow> string \<Rightarrow> heap \<Rightarrow> val \<Rightarrow> string list \<Rightarrow> (error + val) option" where
  "resolve_parts_h B ref_path h current [] = Some (Inr current)"
| "resolve_parts_h B ref_path h current (part # parts) =
     (let part' = unescape part in
      case current of
        VRef a \<Rightarrow>
          (case heap_get h a of
             None \<Rightarrow> None
           | Some (HDict kvs) \<Rightarrow>
               (case map_of kvs part' of
                  None \<Rightarrow> Some (Inl (KeyError part'))
                | Some v \<Rightarrow> resolve_parts_h B ref_path h v parts)
           | Some (HList xs) \<Rightarrow>
               (case py_int B part' of
                  None \<Rightarrow> Some (Inl (IntValueError part'))
                | Some i \<Rightarrow>
                    (case list_get xs i of
                       Inl e \<Rightarrow> Some (Inl e)
                     | Inr v \<Rightarrow> resolve_parts_h B ref_path h v parts)))
      | _ \<Rightarrow> Some (Inl (ValueError (''Cannot resolve path '' @ ref_path))))"

definition resolve_ref_pointer_h :: "builtins \<Rightarrow> json \<Rightarrow> val \<Rightarrow> heap \<Rightarrow> (error + val) option" where
  "resolve_ref_pointer_h B ref root_doc h =
     (case ref of
        JStr ref_path \<Rightarrow>
          if \<not> str_startswith ref_path ''#/''
          then Some (Inl (ValueError (''External references not supported: '' @ ref_path)))
          else resolve_parts_h B ref_path h root_doc (str_split CHR ''/'' (drop 2 ref_path))
      | _ \<Rightarrow> Some (Inl (AttributeError ref)))"

text \<open>A dict display: a new dict at every evaluation.\<close>

definition placeholder_h :: "string \<Rightarrow> heap \<Rightarrow> val \<times> heap" where
  "placeholder_h d h = alloc (HDict [(''type'', VStr ''object''), (''description'', VStr d)]) h"

text \<open>
  Lines 67 to 69, with \<open>props\<close> the dict that line 66 has built: a non-empty \<open>props\<close> and
  a dict \<open>resolved\<close> give a new, merged dict; otherwise \<open>resolved\<close> is left as it is.
\<close>

definition merge_props_h :: "val \<Rightarrow> val \<Rightarrow> heap \<Rightarrow> (val \<times> heap) option" where
  "merge_props_h resolved props h =
     (case props of
        VRef p \<Rightarrow>
          (case heap_get h p of
             Some (HDict pkvs) \<Rightarrow>
               if pkvs \<noteq> [] then
                 (case resolved of
                    VRef a \<Rightarrow>
                      (case heap_get h a of
                         None \<Rightarrow> None
                       | Some (HDict rkvs) \<Rightarrow> Some (alloc (HDict (dict_merge rkvs pkvs)) h)
                       | Some (HList xs) \<Rightarrow> Some (resolved, h))
                  | _ \<Rightarrow> Some (resolved, h))
               else Some (resolved, h)
           | _ \<Rightarrow> None)
      | _ \<Rightarrow> None)"

text \<open>
  \<^verbatim>\<open>expand_refs\<close> on the store, with fuel \<open>n\<close> for the depth of the recursion: the result
  is the value returned and the store after the call, or \<open>None\<close> when the fuel does not
  suffice or an address is not allocated. The reference string is read from the store
  for the messages, the target is resolved in the store, copied, the sibling keys are
  collected into a new dict and merged, and the result is expanded.
\<close>

fun expand_refs_h ::
  "nat \<Rightarrow> builtins \<Rightarrow> val \<Rightarrow> val \<Rightarrow> string \<Rightarrow> nat \<Rightarrow> string set \<Rightarrow> heap \<Rightarrow> (val \<times> heap) option" where
  "expand_refs_h 0 B obj root_doc path depth visited_paths h = None"
| "expand_refs_h (Suc n) B obj root_doc path depth visited_paths h =
     (if depth > MAX_DEPTH
      then Some (placeholder_h (''Max expansion depth reached at '' @ path) h)
      else case obj of
        VRef a \<Rightarrow>
          (case heap_get h a of
             None \<Rightarrow> None
           | Some (HDict kvs) \<Rightarrow>
               (case map_of kvs ''$ref'' of
                  Some ref_val \<Rightarrow>
                    (case tree_of n h ref_val of
                       None \<Rightarrow> None
                     | Some ref_path \<Rightarrow>
                         (let tracking_key = path @ '':'' @ format_value B ref_path in
                          if tracking_key \<in> visited_paths
                          then Some (placeholder_h
                                 (''Circular reference: '' @ format_value B ref_path) h)
                          else
                            (case resolve_ref_pointer_h B ref_path root_doc h of
                               None \<Rightarrow> None
                             | Some (Inl e) \<Rightarrow>
                                 Some (placeholder_h
                                   (''Error resolving '' @ format_value B ref_path @ '': ''
                                     @ str_of_error B e) h)
                             | Some (Inr target) \<Rightarrow>
                                 (case deepcopy_h n target h of
                                    None \<Rightarrow> None
                                  | Some (resolved, h1) \<Rightarrow>
                                      (case alloc (HDict (other_props kvs)) h1 of
                                         (props, h2) \<Rightarrow>
                                           (case merge_props_h resolved props h2 of
                                              None \<Rightarrow> None
                                            | Some (resolved', h3) \<Rightarrow>
                                                expand_refs_h n B resolved' root_doc
                                                  (path @ ''->'' @ format_value B ref_path)
                                                  (depth + 1)
                                                  (insert tracking_key visited_paths) h3))))))
                | None \<Rightarrow>
                    (case for_each (\<lambda>(key, v) h.
                            map_option (\<lambda>(v', h'). ((key, v'), h'))
                              (expand_refs_h n B v root_doc (path @ ''.'' @ key) depth
                                 visited_paths h))
                          kvs h of
                       None \<Rightarrow> None
                     | Some (kvs', h') \<Rightarrow> Some (alloc (HDict kvs') h')))
           | Some (HList items) \<Rightarrow>
               (case for_each (\<lambda>(i, item) h.
                       expand_refs_h n B item root_doc (path @ ''['' @ str_of_nat i @ '']'')
                         depth visited_paths h)
                     (enumerate 0 items) h of
                  None \<Rightarrow> None
                | Some (items', h') \<Rightarrow> Some (alloc (HList items') h')))
      | _ \<Rightarrow> Some (obj, h))"

text \<open>What a parser builds for a tree: its objects, children first.\<close>

fun load_json :: "json \<Rightarrow> heap \<Rightarrow> val \<times> heap"
  and load_items :: "(string \<times> json) list \<Rightarrow> heap \<Rightarrow> (string \<times> val) list \<times> heap"
  and load_list :: "json list \<Rightarrow> heap \<Rightarrow> val list \<times> heap" where
  "load_json JNull h = (VNull, h)"
| "load_json (JBool b) h = (VBool b, h)"
| "load_json (JInt i) h = (VInt i, h)"
| "load_json (JFloat x) h = (VFloat x, h)"
| "load_json (JStr s) h = (VStr s, h)"
| "load_json (JList xs) h = (case load_list xs h of (vs, h') \<Rightarrow> alloc (HList vs) h')"
| "load_json (JDict kvs) h = (case load_items kvs h of (kvs', h') \<Rightarrow> alloc (HDict kvs') h')"
| "load_items [] h = ([], h)"
| "load_items ((k, t) # kvs) h =
     (case load_json t h of (v, h1) \<Rightarrow>
        (case load_items kvs h1 of (kvs', h2) \<Rightarrow> ((k, v) # kvs', h2)))"
| "load_list [] h = ([], h)"
| "load_list (t # ts) h =
     (case load_json t h of (v, h1) \<Rightarrow>
        (case load_list ts h1 of (vs, h2) \<Rightarrow> (v # vs, h2)))"

text \<open>A small document, the store that holds it, and what its expansion allocates.\<close>

definition tiny :: json where
  "tiny =
     JDict [(''a'', JDict [(''$ref'', JStr ''#/b''), (''x'', JInt 1)]),
            (''b'', JDict [(''y'', JList [JInt 2])])]"

definition tiny_heap :: heap where
  "tiny_heap =
     [HDict [(''$ref'', VStr ''#/b''), (''x'', VInt 1)], HList [VInt 2],
      HDict [(''y'', VRef 1)], HDict [(''a'', VRef 0), (''b'', VRef 2)]]"

definition tiny_heap_new :: heap where
  "tiny_heap_new =
     [HList [VInt 2], HDict [(''y'', VRef 4)], HDict [(''x'', VInt 1)],
      HDict [(''y'', VRef 4), (''x'', VInt 1)], HList [VInt 2],
      HDict [(''y'', VRef 8), (''x'', VInt 1)], HList [VInt 2],
      HDict [(''y'', VRef 10)], HDict [(''a'', VRef 9), (''b'', VRef 11)]]"

section \<open>The store and the trees\<close>

text \<open>
  The number of levels of containers in a tree: the fuel that reads it from a store.
\<close>

fun height :: "json \<Rightarrow> nat" where
  "height (JDict kvs) = Suc (Max (insert 0 (height ` snd ` set kvs)))"
| "height (JList xs) = Suc (Max (insert 0 (height ` set xs)))"
| "height _ = 0"

declare height.simps [simp del]

text \<open>
  \<open>repr h v t\<close>: in the store \<open>h\<close> the value \<open>v\<close> stands for the tree \<open>t\<close>. A document
  that a parser has loaded stands for its tree (\<open>load_json_repr\<close> below).
\<close>

definition repr :: "heap \<Rightarrow> val \<Rightarrow> json \<Rightarrow> bool" where
  "repr h v t = (tree_of (height t) h v = Some t)"

definition repr_items :: "heap \<Rightarrow> (string \<times> val) list \<Rightarrow> (string \<times> json) list \<Rightarrow> bool" where
  "repr_items h kvs tkvs =
     list_all2 (\<lambda>kv kt. fst kv = fst kt \<and> repr h (snd kv) (snd kt)) kvs tkvs"

definition rel_items ::
  "nat \<Rightarrow> heap \<Rightarrow> (string \<times> val) list \<Rightarrow> (string \<times> json) list \<Rightarrow> bool" where
  "rel_items n h kvs tkvs =
     list_all2 (\<lambda>kv kt. fst kv = fst kt \<and> tree_of n h (snd kv) = Some (snd kt)) kvs tkvs"

definition rel_list :: "nat \<Rightarrow> heap \<Rightarrow> val list \<Rightarrow> json list \<Rightarrow> bool" where
  "rel_list n h vs ts = list_all2 (\<lambda>v t. tree_of n h v = Some t) vs ts"

text \<open>
  With fuel \<open>m\<close>, \<open>expand_refs_h\<close> does on every store what \<open>expand_refs\<close> does on the
  trees: wherever the root stands for \<open>r\<close> and the object for \<open>t\<close>, it returns, leaves
  what was allocated, and its result stands for the result of \<open>expand_refs\<close>.
\<close>

definition refines_at ::
  "nat \<Rightarrow> builtins \<Rightarrow> json \<Rightarrow> json \<Rightarrow> string \<Rightarrow> nat \<Rightarrow> string set \<Rightarrow> bool" where
  "refines_at m B t r path depth visited_paths =
     (\<forall>h obj root_doc. repr h root_doc r \<longrightarrow> repr h obj t \<longrightarrow>
        (\<exists>v h'. expand_refs_h m B obj root_doc path depth visited_paths h = Some (v, h') \<and>
                 prefix h h' \<and> repr h' v (expand_refs B t r path depth visited_paths)))"

section \<open>Lemmas on the model\<close>

text \<open>The equation of \<open>expand_refs\<close>, branch by branch.\<close>

lemma expand_refs_too_deep:
  "MAX_DEPTH < depth \<Longrightarrow>
   expand_refs B obj root_doc path depth visited_paths =
     placeholder (''Max expansion depth reached at '' @ path)"
  by (simp add: expand_refs.simps)

lemma expand_refs_ref:
  "depth \<le> MAX_DEPTH \<Longrightarrow> map_of kvs ''$ref'' = Some ref_path \<Longrightarrow>
   expand_refs B (JDict kvs) root_doc path depth visited_paths =
     (if path @ '':'' @ format_value B ref_path \<in> visited_paths
      then placeholder (''Circular reference: '' @ format_value B ref_path)
      else case resolve_ref_pointer B ref_path root_doc of
             Inl e \<Rightarrow>
               placeholder (''Error resolving '' @ format_value B ref_path @ '': ''
                             @ str_of_error B e)
           | Inr target \<Rightarrow>
               expand_refs B (merge_props (deepcopy target) (other_props kvs)) root_doc
                 (path @ ''->'' @ format_value B ref_path) (depth + 1)
                 (insert (path @ '':'' @ format_value B ref_path) visited_paths))"
  by (subst expand_refs.simps) (simp add: Let_def split: sum.splits)

lemma expand_refs_dict:
  "depth \<le> MAX_DEPTH \<Longrightarrow> map_of kvs ''$ref'' = None \<Longrightarrow>
   expand_refs B (JDict kvs) root_doc path depth visited_paths =
     JDict (map (\<lambda>(key, v).
              (key, expand_refs B v root_doc (path @ ''.'' @ key) depth visited_paths)) kvs)"
  by (subst expand_refs.simps) simp

lemma expand_refs_list:
  "depth \<le> MAX_DEPTH \<Longrightarrow>
   expand_refs B (JList items) root_doc path depth visited_paths =
     JList (map (\<lambda>(i, item).
              expand_refs B item root_doc (path @ ''['' @ str_of_nat i @ '']'') depth
                visited_paths)
            (enumerate 0 items))"
  by (subst expand_refs.simps) simp

lemma expand_refs_scalar:
  "depth \<le> MAX_DEPTH \<Longrightarrow>
   expand_refs B JNull root_doc path depth visited_paths = JNull \<and>
   expand_refs B (JBool b) root_doc path depth visited_paths = JBool b \<and>
   expand_refs B (JInt i) root_doc path depth visited_paths = JInt i \<and>
   expand_refs B (JFloat x) root_doc path depth visited_paths = JFloat x \<and>
   expand_refs B (JStr s) root_doc path depth visited_paths = JStr s"
  by (simp add: expand_refs.simps)

lemmas expand_refs_eval =
  expand_refs_too_deep expand_refs_ref expand_refs_dict expand_refs_list expand_refs_scalar
  MAX_DEPTH_def resolve_ref_pointer_def str_startswith_def str_split_def format_value_def
  str_of_error_def unescape_def str_replace.simps merge_props_def other_props_def dict_merge_def
  dict_set_def deepcopy_def placeholder_def

lemma placeholder_ref_free: "ref_free (placeholder d)"
  by (simp add: placeholder_def)

lemma map_enumerate_id:
  assumes "\<And>i x. (i, x) \<in> set (enumerate n xs) \<Longrightarrow> f i x = x"
  shows "map (\<lambda>(i, x). f i x) (enumerate n xs) = xs"
proof -
  have "map (\<lambda>(i, x). f i x) (enumerate n xs) = map snd (enumerate n xs)"
    by (rule map_cong) (auto simp: assms)
  then show ?thesis by simp
qed

lemma ref_free_fixed:
  "ref_free obj \<Longrightarrow> depth \<le> MAX_DEPTH \<Longrightarrow>
   expand_refs B obj root_doc path depth visited_paths = obj"
proof (induction B obj root_doc path depth visited_paths rule: expand_refs.induct)
  case (1 B obj root_doc path depth visited_paths)
  show ?case
  proof (cases obj)
    case (JDict kvs)
    from 1(4) JDict have none: "map_of kvs ''$ref'' = None"
      by (simp add: map_of_eq_None_iff)
    have "map (\<lambda>(key, v).
            (key, expand_refs B v root_doc (path @ ''.'' @ key) depth visited_paths)) kvs = kvs"
    proof (rule map_idI)
      fix kv
      assume kv: "kv \<in> set kvs"
      obtain k v where [simp]: "kv = (k, v)"
        by (cases kv)
      from 1(4) JDict kv have "ref_free v"
        by force
      with 1(2)[OF _ JDict none kv, of k v] 1(5)
      show "(case kv of (key, v) \<Rightarrow>
               (key, expand_refs B v root_doc (path @ ''.'' @ key) depth visited_paths)) = kv"
        by simp
    qed
    with JDict none 1(5) show ?thesis
      by (simp add: expand_refs_dict)
  next
    case (JList xs)
    have "map (\<lambda>(i, item).
            expand_refs B item root_doc (path @ ''['' @ str_of_nat i @ '']'') depth visited_paths)
            (enumerate 0 xs) = xs"
    proof (rule map_enumerate_id)
      fix i x
      assume x: "(i, x) \<in> set (enumerate 0 xs)"
      then have "x \<in> set xs"
        by (auto simp: in_set_enumerate_eq)
      with 1(4) JList have "ref_free x"
        by simp
      with 1(1)[OF _ JList x, of i x] 1(5)
      show "expand_refs B x root_doc (path @ ''['' @ str_of_nat i @ '']'') depth visited_paths = x"
        by simp
    qed
    with JList 1(5) show ?thesis
      by (simp add: expand_refs_list)
  qed (use 1(5) in \<open>simp_all add: expand_refs_scalar\<close>)
qed

section \<open>No reference in the output\<close>

text \<open>
  Claim C1. For every object, root document, path, depth and visited set (so also for
  the call \<^verbatim>\<open>expand_refs(doc, doc)\<close> of \<^verbatim>\<open>process_file\<close>), the tree that \<open>expand_refs\<close>
  returns has no dict with the key \<^verbatim>\<open>$ref\<close> at any position: each of the three
  placeholders is free of references, a dict without the key keeps its keys, and what
  the call on a resolved target returns is free of references by induction, whatever the
  target held.
\<close>

theorem output_has_no_refs:
  "ref_free (expand_refs B obj root_doc path depth visited_paths)"
proof (induction B obj root_doc path depth visited_paths rule: expand_refs.induct)
  case (1 B obj root_doc path depth visited_paths)
  show ?case
  proof (cases "MAX_DEPTH < depth")
    case True
    then show ?thesis
      by (simp add: expand_refs_too_deep placeholder_ref_free)
  next
    case deep: False
    show ?thesis
    proof (cases obj)
      case (JDict kvs)
      show ?thesis
      proof (cases "map_of kvs ''$ref''")
        case None
        then have "''$ref'' \<notin> fst ` set kvs"
          by (simp add: map_of_eq_None_iff)
        moreover have "ref_free (expand_refs B v root_doc (path @ ''.'' @ k) depth visited_paths)"
          if "(k, v) \<in> set kvs" for k v
          using 1(2)[OF deep JDict None that] by simp
        ultimately show ?thesis
          using deep JDict None by (auto simp: expand_refs_dict image_iff)
      next
        case (Some ref_path)
        with deep JDict 1(3)[OF deep JDict Some] show ?thesis
          by (auto simp: expand_refs_ref placeholder_ref_free split: sum.splits)
      qed
    next
      case (JList items)
      have "ref_free (expand_refs B x root_doc (path @ ''['' @ str_of_nat i @ '']'') depth
              visited_paths)"
        if "(i, x) \<in> set (enumerate 0 items)" for i x
        using 1(1)[OF deep JList that] by simp
      with deep JList show ?thesis
        by (auto simp: expand_refs_list)
    qed (use deep in \<open>simp_all add: expand_refs_scalar\<close>)
  qed
qed

theorem output_has_no_refs_witness:
  "\<not> ref_free petstore \<and>
   ref_free (expand_refs sample_builtins petstore petstore ''root'' 0 {})"
  using output_has_no_refs [of sample_builtins petstore petstore "''root''" 0 "{}"]
  by (simp add: petstore_def)

section \<open>A document without references\<close>

text \<open>
  Claim C7. For every document \<open>D\<close> in which no dict has the key \<^verbatim>\<open>$ref\<close>, the call
  \<^verbatim>\<open>expand_refs(D, D)\<close> (path \<^verbatim>\<open>"root"\<close>, depth 0, an empty visited set) returns a tree
  equal to \<open>D\<close>: the same keys in the same order, the same items in the same order, the
  same scalars. The depth stays 0 on the way down, so the guard never fires.
\<close>

theorem ref_free_unchanged:
  "ref_free D \<Longrightarrow> expand_refs B D D ''root'' 0 {} = D"
  by (rule ref_free_fixed) simp_all

theorem ref_free_unchanged_witness:
  "ref_free plain_doc \<and>
   expand_refs sample_builtins plain_doc plain_doc ''root'' 0 {} = plain_doc"
proof -
  have free: "ref_free plain_doc"
    by (simp add: plain_doc_def)
  from ref_free_unchanged [OF free, of sample_builtins] free show ?thesis
    by simp
qed

section \<open>A schema that refers to itself\<close>

text \<open>
  Claim C2 says that the schema \<open>A\<close> defined as a reference to itself expands to the
  placeholder "Circular reference: #/components/schemas/A". The code does not do that:
  every dereference appends \<^verbatim>\<open>->#/components/schemas/A\<close> to the path, the tracking
  key starts with the path, so the key of a call is never the key of an earlier one,
  and the recursion ends only when the depth passes \<open>MAX_DEPTH\<close>. The result at the
  schema is the depth placeholder, whose path records eleven dereferences.
\<close>

theorem self_reference_reaches_max_depth:
  "expand_refs B self_ref_doc self_ref_doc ''root'' 0 {} =
     JDict
       [(''components'', JDict
          [(''schemas'', JDict
             [(''A'', placeholder
                (''Max expansion depth reached at root.components.schemas.A'' @
                 concat (replicate 11 ''->#/components/schemas/A'')))])])]"
  by (simp add: self_ref_doc_def expand_refs_eval) (simp add: eval_nat_numeral)

section \<open>The calls of the recursion\<close>

text \<open>
  The relation \<open>call\<close> is the recursion relation of the definition of \<open>expand_refs\<close>
  (\<open>expand_refs_rel\<close>, which the definition itself generates), with the two arguments
  that never change taken out.
\<close>

lemma call_iff_rel:
  "expand_refs_rel (B', obj', root_doc', path', depth', visited_paths')
     (B, obj, root_doc, path, depth, visited_paths) \<longleftrightarrow>
   B' = B \<and> root_doc' = root_doc \<and>
   call B root_doc (obj, path, depth, visited_paths) (obj', path', depth', visited_paths')"
  by (auto simp: call.simps expand_refs_rel.simps)

lemma size_dict_value:
  "(k, v) \<in> set kvs \<Longrightarrow> size v < Suc (size_list (size_prod (\<lambda>_. 0) size) kvs)"
  by (induction kvs) auto

lemma size_list_item:
  "x \<in> set xs \<Longrightarrow> size x < Suc (size_list size xs)"
  by (induction xs) auto

lemma call_decreases:
  "call B root_doc c c' \<Longrightarrow> (call_measure c', call_measure c) \<in> less_than <*lex*> less_than"
  by (induction rule: call.induct)
     (auto simp: call_measure_def size_dict_value size_list_item in_set_enumerate_eq)

lemma wf_call: "wf {(c', c). call B root_doc c c'}"
proof -
  have "wf (inv_image (less_than <*lex*> less_than) call_measure)"
    by (intro wf_inv_image wf_lex_prod wf_less_than)
  moreover have "{(c', c). call B root_doc c c'}
      \<subseteq> inv_image (less_than <*lex*> less_than) call_measure"
    by (auto simp: inv_image_def dest: call_decreases)
  ultimately show ?thesis
    by (rule wf_subset)
qed

lemma call_depth:
  "call B root_doc (obj, path, depth, visited_paths) (obj', path', depth', visited_paths') \<Longrightarrow>
   depth \<le> MAX_DEPTH \<and>
   ((\<exists>kvs. obj = JDict kvs \<and> ''$ref'' \<in> fst ` set kvs) \<and> depth' = depth + 1 \<or>
    \<not> (\<exists>kvs. obj = JDict kvs \<and> ''$ref'' \<in> fst ` set kvs) \<and> depth' = depth \<and>
      size obj' < size obj)"
  by (erule call.cases)
     (auto simp: size_dict_value size_list_item in_set_enumerate_eq map_of_eq_None_iff
           simp flip: dom_map_of_conv_image_fst)

lemma visited_shorter_step:
  "call B root_doc c c' \<Longrightarrow> visited_shorter c \<Longrightarrow> visited_shorter c'"
  by (induction rule: call.induct) (auto simp: visited_shorter_def)

lemma visited_shorter_reach:
  "(call B root_doc)\<^sup>*\<^sup>* c c' \<Longrightarrow> visited_shorter c \<Longrightarrow> visited_shorter c'"
  by (induction rule: rtranclp_induct) (auto intro: visited_shorter_step)

text \<open>
  The calls that lead from the top of \<open>self_ref_doc\<close> to the first dereference of the
  schema \<open>A\<close>: three values of dicts, then the reference.
\<close>

lemma self_ref_calls:
  "(call B self_ref_doc)\<^sup>*\<^sup>* (self_ref_doc, ''root'', 0, {})
     (JDict [(''$ref'', JStr ''#/components/schemas/A'')],
      ''root.components.schemas.A->#/components/schemas/A'', 1,
      {''root.components.schemas.A:#/components/schemas/A''}) \<and>
   call B self_ref_doc
     (JDict [(''$ref'', JStr ''#/components/schemas/A'')], ''root.components.schemas.A'', 0, {})
     (JDict [(''$ref'', JStr ''#/components/schemas/A'')],
      ''root.components.schemas.A->#/components/schemas/A'', 1,
      {''root.components.schemas.A:#/components/schemas/A''})"
proof -
  let ?A = "JDict [(''$ref'', JStr ''#/components/schemas/A'')]"
  let ?S = "JDict [(''A'', ?A)]"
  let ?C = "JDict [(''schemas'', ?S)]"
  let ?top = "(self_ref_doc, ''root'', 0::nat, {}::string set)"
  have 1: "call B self_ref_doc ?top (?C, ''root.components'', 0, {})"
    using call_value [of 0 "[(''components'', ?C)]" "''components''" ?C B self_ref_doc
        "''root''" "{}"]
    by (simp add: self_ref_doc_def)
  have 2: "call B self_ref_doc (?C, ''root.components'', 0, {})
             (?S, ''root.components.schemas'', 0, {})"
    using call_value [of 0 "[(''schemas'', ?S)]" "''schemas''" ?S B self_ref_doc
        "''root.components''" "{}"]
    by simp
  have 3: "call B self_ref_doc (?S, ''root.components.schemas'', 0, {})
             (?A, ''root.components.schemas.A'', 0, {})"
    using call_value [of 0 "[(''A'', ?A)]" "''A''" ?A B self_ref_doc
        "''root.components.schemas''" "{}"]
    by simp
  have 4: "call B self_ref_doc (?A, ''root.components.schemas.A'', 0, {})
             (?A, ''root.components.schemas.A->#/components/schemas/A'', 1,
              {''root.components.schemas.A:#/components/schemas/A''})"
    using call_ref [of 0 "[(''$ref'', JStr ''#/components/schemas/A'')]"
        "JStr ''#/components/schemas/A''" "''root.components.schemas.A''" B "{}"
        self_ref_doc ?A]
    by (simp add: self_ref_doc_def expand_refs_eval)
  have "(call B self_ref_doc)\<^sup>*\<^sup>* ?top (?C, ''root.components'', 0, {})"
    using 1 by (rule r_into_rtranclp)
  then have "(call B self_ref_doc)\<^sup>*\<^sup>* ?top (?S, ''root.components.schemas'', 0, {})"
    using 2 by (rule rtranclp.rtrancl_into_rtrancl)
  then have "(call B self_ref_doc)\<^sup>*\<^sup>* ?top (?A, ''root.components.schemas.A'', 0, {})"
    using 3 by (rule rtranclp.rtrancl_into_rtrancl)
  then have "(call B self_ref_doc)\<^sup>*\<^sup>* ?top
               (?A, ''root.components.schemas.A->#/components/schemas/A'', 1,
                {''root.components.schemas.A:#/components/schemas/A''})"
    using 4 by (rule rtranclp.rtrancl_into_rtrancl)
  with 4 show ?thesis
    by simp
qed

section \<open>The circular-reference branch\<close>

text \<open>
  Claim C3. The branch of \<open>expand_refs\<close> that returns the circular-reference
  placeholder is never taken in a run that starts with an empty visited set, as the call
  \<^verbatim>\<open>expand_refs(doc, doc)\<close> of \<^verbatim>\<open>process_file\<close> does: in every call that such a run
  reaches on a dict with the key \<^verbatim>\<open>$ref\<close>, the tracking key is not in the visited set.
  The reason is the one the claim gives: the path only grows from call to call, every
  key in the visited set is at most as long as the path of the call, and the tracking
  key is the path followed by a colon and the reference.
\<close>

theorem circular_branch_unreachable:
  assumes "(call B root_doc)\<^sup>*\<^sup>* (obj, path, depth, {}) (JDict kvs, path', depth', visited_paths)"
    and "map_of kvs ''$ref'' = Some ref_path"
  shows "path' @ '':'' @ format_value B ref_path \<notin> visited_paths"
proof -
  have "visited_shorter (obj, path, depth, {})"
    by (simp add: visited_shorter_def)
  with assms(1) have "visited_shorter (JDict kvs, path', depth', visited_paths)"
    by (rule visited_shorter_reach)
  then show ?thesis
    by (auto simp: visited_shorter_def)
qed

theorem circular_branch_unreachable_witness:
  "(call sample_builtins self_ref_doc)\<^sup>*\<^sup>* (self_ref_doc, ''root'', 0, {})
     (JDict [(''$ref'', JStr ''#/components/schemas/A'')],
      ''root.components.schemas.A->#/components/schemas/A'', 1,
      {''root.components.schemas.A:#/components/schemas/A''}) \<and>
   map_of [(''$ref'', JStr ''#/components/schemas/A'')] ''$ref''
     = Some (JStr ''#/components/schemas/A'') \<and>
   ''root.components.schemas.A->#/components/schemas/A'' @ '':''
       @ format_value sample_builtins (JStr ''#/components/schemas/A'')
     \<notin> {''root.components.schemas.A:#/components/schemas/A''}"
proof -
  have reach: "(call sample_builtins self_ref_doc)\<^sup>*\<^sup>* (self_ref_doc, ''root'', 0, {})
     (JDict [(''$ref'', JStr ''#/components/schemas/A'')],
      ''root.components.schemas.A->#/components/schemas/A'', 1,
      {''root.components.schemas.A:#/components/schemas/A''})"
    using self_ref_calls [of sample_builtins] by (rule conjunct1)
  have ref: "map_of [(''$ref'', JStr ''#/components/schemas/A'')] ''$ref''
     = Some (JStr ''#/components/schemas/A'')"
    by simp
  from circular_branch_unreachable [OF reach ref] reach ref show ?thesis
    by (intro conjI)
qed

section \<open>Termination\<close>

text \<open>
  Claim C9. \<open>expand_refs\<close> terminates on every document tree: no chain of nested calls is
  infinite. Each call either follows a reference, and then the object is a dict with
  the key \<^verbatim>\<open>$ref\<close>, the depth of the caller is at most \<open>MAX_DEPTH\<close> and the depth of the
  callee is one more; or it goes into a value of a dict without that key or into an
  item of a list, and then the depth is unchanged and the callee's object is strictly
  smaller. Going down the structure alone leaves the depth where it is, at most
  \<open>MAX_DEPTH\<close>, so it never makes the guard of the callee fire.
\<close>

theorem expand_refs_terminates:
  "(\<nexists>chain. \<forall>n. call B root_doc (chain n) (chain (Suc n))) \<and>
   (call B root_doc (obj, path, depth, visited_paths) (obj', path', depth', visited_paths') \<longrightarrow>
      depth \<le> MAX_DEPTH \<and>
      ((\<exists>kvs. obj = JDict kvs \<and> ''$ref'' \<in> fst ` set kvs) \<and> depth' = depth + 1 \<or>
       \<not> (\<exists>kvs. obj = JDict kvs \<and> ''$ref'' \<in> fst ` set kvs) \<and> depth' = depth \<and>
         \<not> MAX_DEPTH < depth' \<and> size obj' < size obj))"
proof (intro conjI impI)
  show "\<nexists>chain. \<forall>n. call B root_doc (chain n) (chain (Suc n))"
    using wf_call [of B root_doc] by (simp add: wf_iff_no_infinite_down_chain)
next
  assume "call B root_doc (obj, path, depth, visited_paths)
            (obj', path', depth', visited_paths')"
  from call_depth [OF this]
  show "depth \<le> MAX_DEPTH"
    and "(\<exists>kvs. obj = JDict kvs \<and> ''$ref'' \<in> fst ` set kvs) \<and> depth' = depth + 1 \<or>
       \<not> (\<exists>kvs. obj = JDict kvs \<and> ''$ref'' \<in> fst ` set kvs) \<and> depth' = depth \<and>
         \<not> MAX_DEPTH < depth' \<and> size obj' < size obj"
    by auto
qed

theorem expand_refs_terminates_witness:
  "call sample_builtins self_ref_doc
     (JDict [(''$ref'', JStr ''#/components/schemas/A'')], ''root.components.schemas.A'', 0, {})
     (JDict [(''$ref'', JStr ''#/components/schemas/A'')],
      ''root.components.schemas.A->#/components/schemas/A'', 1,
      {''root.components.schemas.A:#/components/schemas/A''}) \<and>
   (\<nexists>chain. \<forall>n. call sample_builtins self_ref_doc (chain n) (chain (Suc n))) \<and>
   (0::nat) \<le> MAX_DEPTH \<and> (1::nat) = 0 + 1"
  using expand_refs_terminates [of sample_builtins self_ref_doc
      "JDict [(''$ref'', JStr ''#/components/schemas/A'')]" "''root.components.schemas.A''" 0
      "{}" "JDict [(''$ref'', JStr ''#/components/schemas/A'')]"
      "''root.components.schemas.A->#/components/schemas/A''" 1
      "{''root.components.schemas.A:#/components/schemas/A''}"]
    self_ref_calls [of sample_builtins]
  by simp

section \<open>The visited set does not matter\<close>

text \<open>
  As long as every key in the visited set is at most as long as the path, the result
  of \<open>expand_refs\<close> does not depend on the set: the membership test fails in every call.
\<close>

lemma visited_irrelevant:
  "\<forall>k \<in> W. length k \<le> length path \<Longrightarrow> \<forall>k \<in> V. length k \<le> length path \<Longrightarrow>
   expand_refs B obj root_doc path depth V = expand_refs B obj root_doc path depth W"
proof (induction B obj root_doc path depth W arbitrary: V rule: expand_refs.induct)
  case (1 B obj root_doc path depth W)
  show ?case
  proof (cases "MAX_DEPTH < depth")
    case True
    then show ?thesis
      by (simp add: expand_refs_too_deep)
  next
    case deep: False
    show ?thesis
    proof (cases obj)
      case (JDict kvs)
      show ?thesis
      proof (cases "map_of kvs ''$ref''")
        case None
        have "expand_refs B v root_doc (path @ ''.'' @ k) depth V
            = expand_refs B v root_doc (path @ ''.'' @ k) depth W"
          if "(k, v) \<in> set kvs" for k v
          using 1(2)[OF deep JDict None that, of k v V] 1(4,5) by fastforce
        with deep JDict None show ?thesis
          by (auto simp: expand_refs_dict)
      next
        case (Some ref_path)
        let ?key = "path @ '':'' @ format_value B ref_path"
        let ?path = "path @ ''->'' @ format_value B ref_path"
        from 1(4) have freshW: "?key \<notin> W"
          by auto
        from 1(5) have freshV: "?key \<notin> V"
          by auto
        show ?thesis
        proof (cases "resolve_ref_pointer B ref_path root_doc")
          case (Inl e)
          with deep JDict Some freshW freshV show ?thesis
            by (simp add: expand_refs_ref)
        next
          case (Inr target)
          have "expand_refs B (merge_props (deepcopy target) (other_props kvs)) root_doc
                  ?path (depth + 1) (insert ?key V)
              = expand_refs B (merge_props (deepcopy target) (other_props kvs)) root_doc
                  ?path (depth + 1) (insert ?key W)"
            using 1(3)[OF deep JDict Some refl freshW Inr, of "insert ?key V"] 1(4,5)
            by fastforce
          with deep JDict Some freshW freshV Inr show ?thesis
            by (simp add: expand_refs_ref)
        qed
      qed
    next
      case (JList items)
      have "expand_refs B x root_doc (path @ ''['' @ str_of_nat i @ '']'') depth V
          = expand_refs B x root_doc (path @ ''['' @ str_of_nat i @ '']'') depth W"
        if "(i, x) \<in> set (enumerate 0 items)" for i x
        using 1(1)[OF deep JList that, of i x V] 1(4,5) by fastforce
      with deep JList show ?thesis
        by (auto simp: expand_refs_list)
    qed (use deep in \<open>simp_all add: expand_refs_scalar\<close>)
  qed
qed

lemma expand_refs_ref_empty:
  assumes "depth \<le> MAX_DEPTH" and "map_of kvs ''$ref'' = Some ref_path"
  shows "expand_refs B (JDict kvs) root_doc path depth {} =
     (case resolve_ref_pointer B ref_path root_doc of
        Inl e \<Rightarrow>
          placeholder (''Error resolving '' @ format_value B ref_path @ '': '' @ str_of_error B e)
      | Inr target \<Rightarrow>
          expand_refs B (merge_props (deepcopy target) (other_props kvs)) root_doc
            (path @ ''->'' @ format_value B ref_path) (depth + 1) {})"
proof -
  have "expand_refs B obj root_doc (path @ ''->'' @ format_value B ref_path) (depth + 1)
          {path @ '':'' @ format_value B ref_path}
      = expand_refs B obj root_doc (path @ ''->'' @ format_value B ref_path) (depth + 1) {}"
    for obj
    by (rule visited_irrelevant) simp_all
  with assms show ?thesis
    by (simp add: expand_refs_ref split: sum.splits)
qed

section \<open>Splitting and replacing\<close>

lemma split_acc_no_sep:
  "sep \<notin> set s \<Longrightarrow> split_acc sep cur s = [rev cur @ s]"
  by (induction s arbitrary: cur) auto

lemma split_acc_append_sep:
  "sep \<notin> set a \<Longrightarrow> split_acc sep cur (a @ sep # s) = (rev cur @ a) # split_acc sep [] s"
  by (induction a arbitrary: cur) auto

lemma str_split_no_sep: "sep \<notin> set s \<Longrightarrow> str_split sep s = [s]"
  by (simp add: str_split_def split_acc_no_sep)

lemma str_split_append_sep:
  "sep \<notin> set a \<Longrightarrow> str_split sep (a @ sep # s) = a # str_split sep s"
  by (simp add: str_split_def split_acc_append_sep)

lemma str_replace_2_Nil: "str_replace [a, b] new [] = []"
  by (simp add: str_replace.simps)

lemma str_replace_2_Cons:
  "str_replace [a, b] new (x # s) =
     (if x = a \<and> (\<exists>s'. s = b # s') then new @ str_replace [a, b] new (tl s)
      else x # str_replace [a, b] new s)"
  by (subst str_replace.simps) (auto simp: prefix_def)

lemma str_replace_absent:
  "a \<notin> set s \<Longrightarrow> str_replace [a, b] new s = s"
  by (induction s) (auto simp: str_replace_2_Cons str_replace_2_Nil)

text \<open>A pointer into \<^verbatim>\<open>components.schemas\<close> with a name that needs no unescaping.\<close>

lemma resolve_schema:
  assumes "root_doc = JDict entries" and "map_of entries ''components'' = Some (JDict comps)"
    and "map_of comps ''schemas'' = Some (JDict schemas)"
    and "CHR ''/'' \<notin> set name" and "CHR ''~'' \<notin> set name"
  shows "resolve_ref_pointer B (JStr (''#/components/schemas/'' @ name)) root_doc =
         (case map_of schemas name of None \<Rightarrow> Inl (KeyError name) | Some v \<Rightarrow> Inr v)"
proof -
  have "str_split CHR ''/'' (''components/schemas/'' @ name)
      = [''components'', ''schemas'', name]"
    using str_split_append_sep [of "CHR ''/''" "''components''" "''schemas/'' @ name"]
      str_split_append_sep [of "CHR ''/''" "''schemas''" name]
      str_split_no_sep [of "CHR ''/''" name] assms(4)
    by simp
  then show ?thesis
    using assms(1,2,3,5)
    by (simp add: resolve_ref_pointer_def str_startswith_def unescape_def str_replace_absent
             split: option.splits)
qed

section \<open>The depth bound\<close>

lemma resolve_chain:
  "CHR ''/'' \<notin> set name \<Longrightarrow> CHR ''~'' \<notin> set name \<Longrightarrow>
   resolve_ref_pointer B (JStr (''#/components/schemas/'' @ name)) chain_doc =
     (case map_of chain_schemas name of None \<Rightarrow> Inl (KeyError name) | Some v \<Rightarrow> Inr v)"
  by (rule resolve_schema [where comps = "[(''schemas'', JDict chain_schemas)]",
        OF chain_doc_def]) simp_all

lemmas chain_eval =
  schema_ref_def chain_schemas_def too_deep_def expand_refs_ref_empty
  resolve_chain [simplified] expand_refs_too_deep expand_refs_dict expand_refs_scalar
  MAX_DEPTH_def format_value_def merge_props_def other_props_def deepcopy_def

lemma chain_expansion:
  "expand_refs B chain_doc chain_doc ''root'' 0 {} = chain_expanded"
  by (subst chain_doc_def) (simp add: chain_expanded_def chain_eval)

text \<open>
  Claim C4, with the depth at which the placeholder appears put right. The maximum is 10.
  The guard returns the depth placeholder whenever the depth is greater than 10, whatever
  the object, and it is silent up to and including depth 10: there an object without
  references is returned as it is. A call that follows a reference has a depth of at
  most 10 and passes its depth plus one. So the placeholder is returned by a call of
  depth 11, after eleven dereferences, never at or before depth 10. On the document
  \<open>chain_doc\<close>, with its chain of fifteen schemas, \<^verbatim>\<open>expand_refs(doc, doc)\<close> returns
  \<open>chain_expanded\<close>: the depth placeholder at the path that refers to \<open>S1\<close> and at the
  schemas \<open>S1\<close> to \<open>S4\<close>, each with eleven dereferences in its path, and the plain schema
  at \<open>S5\<close> to \<open>S15\<close>, from which \<open>S15\<close> is at most ten dereferences away. The call of
  depth 10 on the reference to \<open>S11\<close> still resolves it, and the placeholder it returns is
  the one of its callee; ten dereferences in a row, from \<open>S6\<close>, give no placeholder.
\<close>

theorem depth_bound_respected:
  "MAX_DEPTH = 10 \<and>
   (MAX_DEPTH < depth \<longrightarrow>
      expand_refs B obj root_doc path depth visited_paths =
        placeholder (''Max expansion depth reached at '' @ path)) \<and>
   (depth \<le> MAX_DEPTH \<and> ref_free obj \<longrightarrow>
      expand_refs B obj root_doc path depth visited_paths = obj) \<and>
   (call B root_doc (JDict kvs, path, depth, visited_paths)
        (obj', path', depth', visited_paths') \<and> ''$ref'' \<in> fst ` set kvs \<longrightarrow>
      depth \<le> MAX_DEPTH \<and> depth' = depth + 1) \<and>
   expand_refs B chain_doc chain_doc ''root'' 0 {} = chain_expanded \<and>
   expand_refs B (schema_ref ''S11'') chain_doc path 10 {} =
     placeholder (''Max expansion depth reached at '' @ path @ ''->#/components/schemas/S11'') \<and>
   expand_refs B (schema_ref ''S6'') chain_doc path 0 {} = JDict [(''type'', JStr ''string'')]"
proof (intro conjI impI)
  show "MAX_DEPTH = 10"
    by (simp add: MAX_DEPTH_def)
next
  assume "MAX_DEPTH < depth"
  then show "expand_refs B obj root_doc path depth visited_paths =
      placeholder (''Max expansion depth reached at '' @ path)"
    by (rule expand_refs_too_deep)
next
  assume "depth \<le> MAX_DEPTH \<and> ref_free obj"
  then show "expand_refs B obj root_doc path depth visited_paths = obj"
    by (simp add: ref_free_fixed)
next
  assume step: "call B root_doc (JDict kvs, path, depth, visited_paths)
        (obj', path', depth', visited_paths') \<and> ''$ref'' \<in> fst ` set kvs"
  with call_depth [of B root_doc "JDict kvs" path depth visited_paths obj' path' depth'
      visited_paths']
  show "depth \<le> MAX_DEPTH" and "depth' = depth + 1"
    by auto
next
  show "expand_refs B chain_doc chain_doc ''root'' 0 {} = chain_expanded"
    by (rule chain_expansion)
next
  show "expand_refs B (schema_ref ''S11'') chain_doc path 10 {} =
     placeholder (''Max expansion depth reached at '' @ path @ ''->#/components/schemas/S11'')"
    by (simp add: chain_eval)
next
  show "expand_refs B (schema_ref ''S6'') chain_doc path 0 {} = JDict [(''type'', JStr ''string'')]"
    by (simp add: chain_eval)
qed

theorem depth_bound_respected_witness:
  "MAX_DEPTH < 11 \<and>
   expand_refs sample_builtins (JStr ''any'') chain_doc ''root.x'' 11 {} =
     placeholder ''Max expansion depth reached at root.x'' \<and>
   (10::nat) \<le> MAX_DEPTH \<and> ref_free (JDict [(''type'', JStr ''string'')]) \<and>
   expand_refs sample_builtins (JDict [(''type'', JStr ''string'')]) chain_doc ''root.x'' 10 {} =
     JDict [(''type'', JStr ''string'')] \<and>
   call sample_builtins self_ref_doc
     (JDict [(''$ref'', JStr ''#/components/schemas/A'')], ''root.components.schemas.A'', 0, {})
     (JDict [(''$ref'', JStr ''#/components/schemas/A'')],
      ''root.components.schemas.A->#/components/schemas/A'', 1,
      {''root.components.schemas.A:#/components/schemas/A''}) \<and>
   ''$ref'' \<in> fst ` set [(''$ref'', JStr ''#/components/schemas/A'')] \<and>
   (0::nat) \<le> MAX_DEPTH \<and>
   expand_refs sample_builtins chain_doc chain_doc ''root'' 0 {} = chain_expanded \<and>
   expand_refs sample_builtins (schema_ref ''S11'') chain_doc ''root.x'' 10 {} =
     placeholder ''Max expansion depth reached at root.x->#/components/schemas/S11'' \<and>
   expand_refs sample_builtins (schema_ref ''S6'') chain_doc ''root.x'' 0 {} =
     JDict [(''type'', JStr ''string'')]"
proof -
  note inst = depth_bound_respected [where B = sample_builtins and root_doc = chain_doc
      and path = "''root.x''" and visited_paths = "{}"]
  have deep: "MAX_DEPTH < 11" and low: "(10::nat) \<le> MAX_DEPTH"
    by (simp_all add: MAX_DEPTH_def)
  have free: "ref_free (JDict [(''type'', JStr ''string'')])"
    by simp
  have guard: "expand_refs sample_builtins (JStr ''any'') chain_doc ''root.x'' 11 {} =
      placeholder ''Max expansion depth reached at root.x''"
    using inst [where depth = 11 and obj = "JStr ''any''"] deep
    by simp
  have silent: "expand_refs sample_builtins (JDict [(''type'', JStr ''string'')]) chain_doc
      ''root.x'' 10 {} = JDict [(''type'', JStr ''string'')]"
    by (rule inst [where depth = 10 and obj = "JDict [(''type'', JStr ''string'')]",
          THEN conjunct2, THEN conjunct2, THEN conjunct1, THEN mp])
       (simp add: MAX_DEPTH_def)
  have rest: "expand_refs sample_builtins chain_doc chain_doc ''root'' 0 {} = chain_expanded \<and>
     expand_refs sample_builtins (schema_ref ''S11'') chain_doc ''root.x'' 10 {} =
       placeholder ''Max expansion depth reached at root.x->#/components/schemas/S11'' \<and>
     expand_refs sample_builtins (schema_ref ''S6'') chain_doc ''root.x'' 0 {} =
       JDict [(''type'', JStr ''string'')]"
    using inst [THEN conjunct2, THEN conjunct2, THEN conjunct2, THEN conjunct2]
    by simp
  from deep low free guard silent rest self_ref_calls [of sample_builtins] show ?thesis
    by simp
qed

text \<open>
  Claim C4 as first stated has the placeholder produced at or before depth 10. On the
  chain it is not: the expansion of the reference to \<open>S1\<close> at depth 0 gives the
  placeholder with eleven dereferences in its path, \<open>S1\<close> to \<open>S11\<close>; the call of depth 10,
  on the reference to \<open>S11\<close>, does not return the placeholder for its own path but
  resolves \<open>S11\<close> and returns what the call of depth 11 gives; the ten dereferences from
  \<open>S6\<close> to \<open>S15\<close> reach depth 10 and give the plain schema; and an object without
  references is not replaced at depth 10.
\<close>

theorem depth_ten_still_dereferences:
  "expand_refs sample_builtins (schema_ref ''S1'') chain_doc ''root.paths./first'' 0 {} =
     placeholder (''Max expansion depth reached at root.paths./first''
       @ ''->#/components/schemas/S1->#/components/schemas/S2->#/components/schemas/S3''
       @ ''->#/components/schemas/S4->#/components/schemas/S5->#/components/schemas/S6''
       @ ''->#/components/schemas/S7->#/components/schemas/S8->#/components/schemas/S9''
       @ ''->#/components/schemas/S10->#/components/schemas/S11'') \<and>
   expand_refs sample_builtins (schema_ref ''S11'') chain_doc ''p'' 10 {} =
     placeholder ''Max expansion depth reached at p->#/components/schemas/S11'' \<and>
   expand_refs sample_builtins (schema_ref ''S11'') chain_doc ''p'' 10 {} \<noteq>
     placeholder ''Max expansion depth reached at p'' \<and>
   expand_refs sample_builtins (schema_ref ''S6'') chain_doc ''p'' 0 {} =
     JDict [(''type'', JStr ''string'')] \<and>
   expand_refs sample_builtins (JDict [(''type'', JStr ''string'')]) chain_doc ''p'' 10 {} \<noteq>
     placeholder ''Max expansion depth reached at p''"
  by (simp add: chain_eval placeholder_def)

section \<open>Merging dicts\<close>

lemma map_of_replace_value:
  "map_of (map (\<lambda>(k', v'). if k' = k then (k', v) else (k', v')) kvs) x =
     (if x = k then (if k \<in> fst ` set kvs then Some v else None) else map_of kvs x)"
proof (induction kvs)
  case Nil
  show ?case by simp
next
  case (Cons kv kvs)
  obtain k' v' where [simp]: "kv = (k', v')"
    by (cases kv)
  have "(k, y) \<in> set kvs \<Longrightarrow> k \<in> fst ` set kvs" for y
    by force
  with Cons show ?case
    by auto
qed

lemma map_of_dict_set: "map_of (dict_set kvs k v) = (map_of kvs)(k \<mapsto> v)"
proof (rule ext)
  fix x
  show "map_of (dict_set kvs k v) x = ((map_of kvs)(k \<mapsto> v)) x"
  proof (cases "k \<in> fst ` set kvs")
    case True
    then show ?thesis
      by (simp add: dict_set_def map_of_replace_value)
  next
    case False
    then have "map_of kvs k = None"
      by (simp add: map_of_eq_None_iff)
    with False show ?thesis
      by (simp add: dict_set_def map_add_def split: option.splits)
  qed
qed

lemma keys_dict_set:
  "map fst (dict_set kvs k v) = (if k \<in> fst ` set kvs then map fst kvs else map fst kvs @ [k])"
proof -
  have "map fst (map (\<lambda>(k', v'). if k' = k then (k', v) else (k', v')) kvs) = map fst kvs"
    by (induction kvs) auto
  then show ?thesis
    by (simp add: dict_set_def)
qed

lemma foldl_dict_set_append:
  "distinct (map fst (acc @ a)) \<Longrightarrow> foldl (\<lambda>acc (k, v). dict_set acc k v) acc a = acc @ a"
proof (induction a arbitrary: acc)
  case Nil
  then show ?case by simp
next
  case (Cons kv a)
  obtain k v where [simp]: "kv = (k, v)"
    by (cases kv)
  from Cons.prems have "k \<notin> fst ` set acc"
    by auto
  then have "dict_set acc k v = acc @ [(k, v)]"
    by (simp add: dict_set_def)
  with Cons.IH [of "acc @ [(k, v)]"] Cons.prems show ?case
    by simp
qed

lemma dict_merge_distinct:
  "distinct (map fst a) \<Longrightarrow> dict_merge a b = foldl (\<lambda>acc (k, v). dict_set acc k v) a b"
  using foldl_dict_set_append [of "[]" a] by (simp add: dict_merge_def)

lemma map_of_foldl_dict_set:
  "map_of (foldl (\<lambda>acc (k, v). dict_set acc k v) acc b) k =
     (case map_of (rev b) k of Some v \<Rightarrow> Some v | None \<Rightarrow> map_of acc k)"
  by (induction b arbitrary: acc)
     (auto simp: map_of_dict_set map_add_def split: option.splits)

lemma map_of_rev_distinct: "distinct (map fst b) \<Longrightarrow> map_of (rev b) = map_of b"
  by (rule map_of_inject_set [THEN iffD2]) (simp_all add: rev_map [symmetric])

lemma keys_foldl_dict_set:
  "distinct (map fst b) \<Longrightarrow>
   map fst (foldl (\<lambda>acc (k, v). dict_set acc k v) acc b) =
     map fst acc @ filter (\<lambda>k. k \<notin> fst ` set acc) (map fst b)"
proof (induction b arbitrary: acc)
  case Nil
  then show ?case by simp
next
  case (Cons kv b)
  obtain k v where [simp]: "kv = (k, v)"
    by (cases kv)
  from Cons.prems have k: "k \<notin> fst ` set b" and d: "distinct (map fst b)"
    by auto
  have "fst ` set (dict_set acc k v) = insert k (fst ` set acc)"
    using keys_dict_set [of acc k v, THEN arg_cong, of set] by (auto split: if_splits)
  with k have "filter (\<lambda>k'. k' \<notin> fst ` set (dict_set acc k v)) (map fst b)
      = filter (\<lambda>k'. k' \<notin> fst ` set acc) (map fst b)"
    by (intro filter_cong refl) auto
  with Cons.IH [OF d, of "dict_set acc k v"] show ?case
    by (auto simp: keys_dict_set)
qed

text \<open>
  \<^verbatim>\<open>{**a, **b}\<close> on two dicts: a key of \<open>b\<close> has the value of \<open>b\<close>, any other key the
  value of \<open>a\<close>; the keys of \<open>a\<close> come first, in their order, then the new keys of \<open>b\<close>.
\<close>

lemma map_of_dict_merge:
  "distinct (map fst a) \<Longrightarrow> distinct (map fst b) \<Longrightarrow>
   map_of (dict_merge a b) k = (case map_of b k of Some v \<Rightarrow> Some v | None \<Rightarrow> map_of a k)"
  by (simp add: dict_merge_distinct map_of_foldl_dict_set map_of_rev_distinct)

lemma keys_dict_merge:
  "distinct (map fst a) \<Longrightarrow> distinct (map fst b) \<Longrightarrow>
   map fst (dict_merge a b) = map fst a @ filter (\<lambda>k. k \<notin> fst ` set a) (map fst b)"
  by (simp add: dict_merge_distinct keys_foldl_dict_set)

lemma distinct_other_props: "distinct (map fst kvs) \<Longrightarrow> distinct (map fst (other_props kvs))"
  by (simp add: other_props_def distinct_map_filter)

section \<open>Sibling keys of a reference\<close>

lemma resolve_petstore:
  "CHR ''/'' \<notin> set name \<Longrightarrow> CHR ''~'' \<notin> set name \<Longrightarrow>
   resolve_ref_pointer B (JStr (''#/components/schemas/'' @ name)) petstore =
     (case map_of [(''Pet'', JDict [(''type'', JStr ''object''),
                                    (''description'', JStr ''original'')])] name of
        None \<Rightarrow> Inl (KeyError name)
      | Some v \<Rightarrow> Inr v)"
  by (rule resolve_schema [where comps = "[(''schemas'', JDict
        [(''Pet'', JDict [(''type'', JStr ''object''), (''description'', JStr ''original'')])])]",
        OF petstore_def]) simp_all

lemma resolve_external:
  "\<not> str_startswith r ''#/'' \<Longrightarrow>
   resolve_ref_pointer B (JStr r) root_doc =
     Inl (ValueError (''External references not supported: '' @ r))"
  by (simp add: resolve_ref_pointer_def)

lemmas petstore_eval =
  pet_ref_def expand_refs_ref_empty resolve_petstore [simplified] expand_refs_too_deep
  expand_refs_dict expand_refs_list expand_refs_scalar MAX_DEPTH_def format_value_def
  merge_props_def other_props_def deepcopy_def dict_merge_def dict_set_def str_of_error_def
  resolve_external str_startswith_def placeholder_def

text \<open>
  Claim C5. When a reference node has sibling keys and its target is a dict, the node
  expands to what the merged dict expands to, one level deeper: the merged dict has,
  at every key of a sibling, the sibling's value, and at any other key the target's
  value; its keys are the target's, in their order, then the new sibling keys. So the
  reference to \<open>Pet\<close> with the sibling \<^verbatim>\<open>"description": "override"\<close> expands to
  \<^verbatim>\<open>{"type": "object", "description": "override"}\<close>.
\<close>

theorem sibling_keys_override:
  "(depth \<le> MAX_DEPTH \<and> distinct (map fst kvs) \<and> distinct (map fst target) \<and>
    map_of kvs ''$ref'' = Some ref_path \<and> other_props kvs \<noteq> [] \<and>
    path @ '':'' @ format_value B ref_path \<notin> visited_paths \<and>
    resolve_ref_pointer B ref_path root_doc = Inr (JDict target) \<longrightarrow>
      expand_refs B (JDict kvs) root_doc path depth visited_paths =
        expand_refs B (JDict (dict_merge target (other_props kvs))) root_doc
          (path @ ''->'' @ format_value B ref_path) (depth + 1)
          (insert (path @ '':'' @ format_value B ref_path) visited_paths) \<and>
      map_of (dict_merge target (other_props kvs)) k =
        (case map_of (other_props kvs) k of Some v \<Rightarrow> Some v | None \<Rightarrow> map_of target k) \<and>
      map fst (dict_merge target (other_props kvs)) =
        map fst target @ filter (\<lambda>k. k \<notin> fst ` set target) (map fst (other_props kvs))) \<and>
   expand_refs B pet_ref petstore ''root'' 0 {} =
     JDict [(''type'', JStr ''object''), (''description'', JStr ''override'')]"
proof (intro conjI impI)
  assume h: "depth \<le> MAX_DEPTH \<and> distinct (map fst kvs) \<and> distinct (map fst target) \<and>
    map_of kvs ''$ref'' = Some ref_path \<and> other_props kvs \<noteq> [] \<and>
    path @ '':'' @ format_value B ref_path \<notin> visited_paths \<and>
    resolve_ref_pointer B ref_path root_doc = Inr (JDict target)"
  then show "expand_refs B (JDict kvs) root_doc path depth visited_paths =
        expand_refs B (JDict (dict_merge target (other_props kvs))) root_doc
          (path @ ''->'' @ format_value B ref_path) (depth + 1)
          (insert (path @ '':'' @ format_value B ref_path) visited_paths)"
    by (simp add: expand_refs_ref merge_props_def deepcopy_def)
  from h have "distinct (map fst target)" and "distinct (map fst (other_props kvs))"
    by (simp_all add: distinct_other_props)
  then show "map_of (dict_merge target (other_props kvs)) k =
        (case map_of (other_props kvs) k of Some v \<Rightarrow> Some v | None \<Rightarrow> map_of target k)"
    and "map fst (dict_merge target (other_props kvs)) =
        map fst target @ filter (\<lambda>k. k \<notin> fst ` set target) (map fst (other_props kvs))"
    by (rule map_of_dict_merge, rule keys_dict_merge)
next
  show "expand_refs B pet_ref petstore ''root'' 0 {} =
     JDict [(''type'', JStr ''object''), (''description'', JStr ''override'')]"
    by (simp add: petstore_eval)
qed

theorem sibling_keys_override_witness:
  "(0::nat) \<le> MAX_DEPTH \<and>
   map_of [(''$ref'', JStr ''#/components/schemas/Pet''), (''description'', JStr ''override'')]
     ''$ref'' = Some (JStr ''#/components/schemas/Pet'') \<and>
   other_props [(''$ref'', JStr ''#/components/schemas/Pet''),
                (''description'', JStr ''override'')] = [(''description'', JStr ''override'')] \<and>
   resolve_ref_pointer sample_builtins (JStr ''#/components/schemas/Pet'') petstore =
     Inr (JDict [(''type'', JStr ''object''), (''description'', JStr ''original'')]) \<and>
   map_of (dict_merge [(''type'', JStr ''object''), (''description'', JStr ''original'')]
             [(''description'', JStr ''override'')]) ''description'' = Some (JStr ''override'') \<and>
   map fst (dict_merge [(''type'', JStr ''object''), (''description'', JStr ''original'')]
              [(''description'', JStr ''override'')]) = [''type'', ''description''] \<and>
   expand_refs sample_builtins pet_ref petstore ''root'' 0 {} =
     JDict [(''type'', JStr ''object''), (''description'', JStr ''override'')]"
proof -
  let ?kvs = "[(''$ref'', JStr ''#/components/schemas/Pet''), (''description'', JStr ''override'')]"
  let ?target = "[(''type'', JStr ''object''), (''description'', JStr ''original'')]"
  have props: "other_props ?kvs = [(''description'', JStr ''override'')]"
    by (simp add: other_props_def)
  have target: "resolve_ref_pointer sample_builtins (JStr ''#/components/schemas/Pet'') petstore
      = Inr (JDict ?target)"
    by (simp add: resolve_petstore [simplified])
  note inst = sibling_keys_override [where B = sample_builtins and depth = 0 and kvs = ?kvs
      and target = ?target and ref_path = "JStr ''#/components/schemas/Pet''"
      and path = "''root''" and visited_paths = "{}" and root_doc = petstore
      and k = "''description''"]
  from inst props target show ?thesis
    by simp
qed

section \<open>Failures of the resolver\<close>

lemma petstore_expansion:
  "expand_refs B petstore petstore ''root'' 0 {} = petstore_expanded B"
  by (subst petstore_def) (simp add: petstore_expanded_def petstore_eval enumerate_eq_zip
        str_of_nat.simps)

text \<open>
  Claim C6. A reference whose resolution fails, with whatever exception \<open>e\<close>, expands
  to the placeholder "Error resolving <ref>: <message>", where the message is
  \<^verbatim>\<open>str(e)\<close>. The resolver fails, and with these exceptions: on a reference that does
  not start with \<^verbatim>\<open>#/\<close>; on a key that the dict does not have; on an index that
  \<^verbatim>\<open>int\<close> rejects; on an index outside the list; on a segment that addresses into a
  scalar; and on a value under \<^verbatim>\<open>$ref\<close> that is not a string. \<open>expand_refs\<close> itself
  returns a tree in every case (its result type has no error), and a dict or a list is
  expanded value by value, each by a call of its own, so the values beside a bad
  reference are expanded as if it were not there: on \<open>petstore\<close> the two bad references
  become placeholders and the reference beside them, to \<open>Pet\<close>, is expanded.
\<close>

theorem resolution_failure_inlined:
  "(depth \<le> MAX_DEPTH \<and> map_of kvs ''$ref'' = Some ref_path \<and>
    path @ '':'' @ format_value B ref_path \<notin> visited_paths \<and>
    resolve_ref_pointer B ref_path root_doc = Inl e \<longrightarrow>
      expand_refs B (JDict kvs) root_doc path depth visited_paths =
        placeholder (''Error resolving '' @ format_value B ref_path @ '': ''
                      @ str_of_error B e)) \<and>
   (\<not> str_startswith r ''#/'' \<longrightarrow>
      resolve_ref_pointer B (JStr r) root_doc =
        Inl (ValueError (''External references not supported: '' @ r))) \<and>
   (map_of items (unescape part) = None \<longrightarrow>
      resolve_parts B r (JDict items) (part # parts) = Inl (KeyError (unescape part))) \<and>
   (py_int B (unescape part) = None \<longrightarrow>
      resolve_parts B r (JList xs) (part # parts) = Inl (IntValueError (unescape part))) \<and>
   (py_int B (unescape part) = Some i \<and> (int (length xs) \<le> i \<or> i < - int (length xs)) \<longrightarrow>
      resolve_parts B r (JList xs) (part # parts) = Inl (IndexError i)) \<and>
   ((\<forall>items. current \<noteq> JDict items) \<and> (\<forall>xs. current \<noteq> JList xs) \<longrightarrow>
      resolve_parts B r current (part # parts) =
        Inl (ValueError (''Cannot resolve path '' @ r))) \<and>
   ((\<forall>s. ref \<noteq> JStr s) \<longrightarrow> resolve_ref_pointer B ref root_doc = Inl (AttributeError ref)) \<and>
   (depth \<le> MAX_DEPTH \<and> map_of kvs ''$ref'' = None \<longrightarrow>
      expand_refs B (JDict kvs) root_doc path depth visited_paths =
        JDict (map (\<lambda>(key, v).
                 (key, expand_refs B v root_doc (path @ ''.'' @ key) depth visited_paths))
               kvs)) \<and>
   (depth \<le> MAX_DEPTH \<longrightarrow>
      expand_refs B (JList xs) root_doc path depth visited_paths =
        JList (map (\<lambda>(i, item).
                 expand_refs B item root_doc (path @ ''['' @ str_of_nat i @ '']'') depth
                   visited_paths)
               (enumerate 0 xs))) \<and>
   expand_refs B petstore petstore ''root'' 0 {} = petstore_expanded B"
proof (intro conjI impI)
  assume "depth \<le> MAX_DEPTH \<and> map_of kvs ''$ref'' = Some ref_path \<and>
    path @ '':'' @ format_value B ref_path \<notin> visited_paths \<and>
    resolve_ref_pointer B ref_path root_doc = Inl e"
  then show "expand_refs B (JDict kvs) root_doc path depth visited_paths =
      placeholder (''Error resolving '' @ format_value B ref_path @ '': '' @ str_of_error B e)"
    by (simp add: expand_refs_ref)
next
  assume "\<not> str_startswith r ''#/''"
  then show "resolve_ref_pointer B (JStr r) root_doc =
      Inl (ValueError (''External references not supported: '' @ r))"
    by (rule resolve_external)
next
  assume "map_of items (unescape part) = None"
  then show "resolve_parts B r (JDict items) (part # parts) = Inl (KeyError (unescape part))"
    by simp
next
  assume "py_int B (unescape part) = None"
  then show "resolve_parts B r (JList xs) (part # parts) = Inl (IntValueError (unescape part))"
    by simp
next
  assume "py_int B (unescape part) = Some i \<and> (int (length xs) \<le> i \<or> i < - int (length xs))"
  then show "resolve_parts B r (JList xs) (part # parts) = Inl (IndexError i)"
    by (auto simp: list_get_def)
next
  assume "(\<forall>items. current \<noteq> JDict items) \<and> (\<forall>xs. current \<noteq> JList xs)"
  then show "resolve_parts B r current (part # parts) =
      Inl (ValueError (''Cannot resolve path '' @ r))"
    by (cases current) simp_all
next
  assume "\<forall>s. ref \<noteq> JStr s"
  then show "resolve_ref_pointer B ref root_doc = Inl (AttributeError ref)"
    by (cases ref) (simp_all add: resolve_ref_pointer_def)
next
  assume "depth \<le> MAX_DEPTH \<and> map_of kvs ''$ref'' = None"
  then show "expand_refs B (JDict kvs) root_doc path depth visited_paths =
      JDict (map (\<lambda>(key, v).
               (key, expand_refs B v root_doc (path @ ''.'' @ key) depth visited_paths)) kvs)"
    by (simp add: expand_refs_dict)
next
  assume "depth \<le> MAX_DEPTH"
  then show "expand_refs B (JList xs) root_doc path depth visited_paths =
      JList (map (\<lambda>(i, item).
               expand_refs B item root_doc (path @ ''['' @ str_of_nat i @ '']'') depth
                 visited_paths)
             (enumerate 0 xs))"
    by (rule expand_refs_list)
next
  show "expand_refs B petstore petstore ''root'' 0 {} = petstore_expanded B"
    by (rule petstore_expansion)
qed

theorem resolution_failure_inlined_witness:
  "resolve_ref_pointer sample_builtins (JStr ''#/components/schemas/DoesNotExist'') petstore =
     Inl (KeyError ''DoesNotExist'') \<and>
   expand_refs sample_builtins (schema_ref ''DoesNotExist'') petstore ''root'' 0 {} =
     placeholder (''Error resolving #/components/schemas/DoesNotExist: ''
                   @ quoted ''DoesNotExist'') \<and>
   \<not> str_startswith ''other.yaml#/Pet'' ''#/'' \<and>
   resolve_ref_pointer sample_builtins (JStr ''other.yaml#/Pet'') petstore =
     Inl (ValueError ''External references not supported: other.yaml#/Pet'') \<and>
   py_int sample_builtins (unescape ''first'') = None \<and>
   resolve_parts sample_builtins ''#/first'' (JList [JInt 1, JInt 2]) [''first''] =
     Inl (IntValueError ''first'') \<and>
   py_int sample_builtins (unescape ''2'') = Some 2 \<and>
   resolve_parts sample_builtins ''#/2'' (JList [JInt 1, JInt 2]) [''2''] =
     Inl (IndexError 2) \<and>
   resolve_parts sample_builtins ''#/a/b'' (JStr ''scalar'') [''b''] =
     Inl (ValueError ''Cannot resolve path #/a/b'') \<and>
   resolve_ref_pointer sample_builtins (JInt 7) petstore = Inl (AttributeError (JInt 7)) \<and>
   expand_refs sample_builtins petstore petstore ''root'' 0 {} =
     petstore_expanded sample_builtins"
proof -
  let ?bad = "JStr ''#/components/schemas/DoesNotExist''"
  have missing: "resolve_ref_pointer sample_builtins ?bad petstore = Inl (KeyError ''DoesNotExist'')"
    by (simp add: resolve_petstore [simplified])
  have external: "\<not> str_startswith ''other.yaml#/Pet'' ''#/''"
    by (simp add: str_startswith_def)
  have no_int: "py_int sample_builtins (unescape ''first'') = None"
    by (simp add: sample_builtins_def decimal_int_def unescape_def str_replace_2_Cons
          str_replace_2_Nil)
  have two: "py_int sample_builtins (unescape ''2'') = Some 2"
    by (simp add: sample_builtins_def decimal_int_def unescape_def str_replace_2_Cons
          str_replace_2_Nil)
  note a = resolution_failure_inlined [where B = sample_builtins and depth = 0
      and kvs = "[(''$ref'', ?bad)]" and ref_path = ?bad and path = "''root''"
      and visited_paths = "{}" and root_doc = petstore and e = "KeyError ''DoesNotExist''"
      and r = "''other.yaml#/Pet''" and part = "''first''" and parts = "[]"
      and xs = "[JInt 1, JInt 2]" and ref = "JInt 7"]
  note b = resolution_failure_inlined [where B = sample_builtins and part = "''2''"
      and parts = "[]" and xs = "[JInt 1, JInt 2]" and i = 2 and r = "''#/2''"]
  note c = resolution_failure_inlined [where B = sample_builtins and part = "''b''"
      and parts = "[]" and current = "JStr ''scalar''" and r = "''#/a/b''"]
  from a missing external no_int
  have 1: "expand_refs sample_builtins (schema_ref ''DoesNotExist'') petstore ''root'' 0 {} =
      placeholder (''Error resolving #/components/schemas/DoesNotExist: ''
                    @ quoted ''DoesNotExist'')"
    and 2: "resolve_ref_pointer sample_builtins (JStr ''other.yaml#/Pet'') petstore =
      Inl (ValueError ''External references not supported: other.yaml#/Pet'')"
    and 3: "resolve_ref_pointer sample_builtins (JInt 7) petstore = Inl (AttributeError (JInt 7))"
    and 4: "expand_refs sample_builtins petstore petstore ''root'' 0 {} =
      petstore_expanded sample_builtins"
    by (simp_all add: schema_ref_def format_value_def str_of_error_def sample_builtins_def
          sample_exc_str_def)
  from a no_int
  have 5: "resolve_parts sample_builtins ''#/first'' (JList [JInt 1, JInt 2]) [''first''] =
      Inl (IntValueError ''first'')"
    by (simp add: unescape_def str_replace_2_Cons str_replace_2_Nil)
  from b two
  have 6: "resolve_parts sample_builtins ''#/2'' (JList [JInt 1, JInt 2]) [''2''] =
      Inl (IndexError 2)"
    by simp
  from c
  have 7: "resolve_parts sample_builtins ''#/a/b'' (JStr ''scalar'') [''b''] =
      Inl (ValueError ''Cannot resolve path #/a/b'')"
    by simp
  from missing external no_int two 1 2 3 4 5 6 7 show ?thesis
    by (intro conjI)
qed

section \<open>Unescaping a segment\<close>

lemma unescape_escape: "unescape (rfc6901_escape key) = key"
proof -
  let ?half = "\<lambda>s. concat (map (\<lambda>c. if c = CHR ''~'' then ''~0'' else [c]) s)"
  have 1: "str_replace ''~1'' ''/'' (rfc6901_escape s) = ?half s" for s
    by (induction s) (auto simp: rfc6901_escape_def str_replace_2_Cons str_replace_2_Nil)
  have 2: "str_replace ''~0'' ''~'' (?half s) = s" for s
    by (induction s) (auto simp: str_replace_2_Cons str_replace_2_Nil)
  show ?thesis
    by (simp add: unescape_def 1 2)
qed

lemma escape_no_slash: "CHR ''/'' \<notin> set (rfc6901_escape key)"
  by (induction key) (auto simp: rfc6901_escape_def)

lemma resolve_one_segment:
  "CHR ''/'' \<notin> set part \<Longrightarrow>
   resolve_ref_pointer B (JStr (''#/'' @ part)) (JDict kvs) =
     (case map_of kvs (unescape part) of
        None \<Rightarrow> Inl (KeyError (unescape part))
      | Some v \<Rightarrow> Inr v)"
  by (simp add: resolve_ref_pointer_def str_startswith_def str_split_no_sep
           split: option.splits)

text \<open>
  Claim C10. A segment is unescaped by replacing every \<^verbatim>\<open>~1\<close> with \<^verbatim>\<open>/\<close> and then, in
  the result, every \<^verbatim>\<open>~0\<close> with \<^verbatim>\<open>~\<close>, and the unescaped segment is the key that is
  looked up. So the segment \<^verbatim>\<open>~01\<close> addresses the key \<^verbatim>\<open>~1\<close> and the segment \<^verbatim>\<open>~1\<close>
  the key \<^verbatim>\<open>/\<close>. The order is that of RFC 6901, section 4, and it inverts the encoding
  of section 3: a pointer made of the escaped form of any key addresses that key.
\<close>

theorem unescape_order:
  "unescape part = str_replace ''~0'' ''~'' (str_replace ''~1'' ''/'' part) \<and>
   (CHR ''/'' \<notin> set part \<longrightarrow>
      resolve_ref_pointer B (JStr (''#/'' @ part)) (JDict kvs) =
        (case map_of kvs (unescape part) of
           None \<Rightarrow> Inl (KeyError (unescape part))
         | Some v \<Rightarrow> Inr v)) \<and>
   unescape ''~01'' = ''~1'' \<and>
   unescape ''~1'' = ''/'' \<and>
   resolve_ref_pointer B (JStr ''#/~01'')
     (JDict [(''/'', JStr ''slash''), (''~1'', JStr ''tilde one'')]) = Inr (JStr ''tilde one'') \<and>
   resolve_ref_pointer B (JStr ''#/~1'')
     (JDict [(''/'', JStr ''slash''), (''~1'', JStr ''tilde one'')]) = Inr (JStr ''slash'') \<and>
   unescape (rfc6901_escape key) = key \<and>
   resolve_ref_pointer B (JStr (''#/'' @ rfc6901_escape key)) (JDict kvs) =
     (case map_of kvs key of None \<Rightarrow> Inl (KeyError key) | Some v \<Rightarrow> Inr v)"
proof (intro conjI impI)
  show "unescape part = str_replace ''~0'' ''~'' (str_replace ''~1'' ''/'' part)"
    by (simp add: unescape_def)
next
  assume "CHR ''/'' \<notin> set part"
  then show "resolve_ref_pointer B (JStr (''#/'' @ part)) (JDict kvs) =
      (case map_of kvs (unescape part) of
         None \<Rightarrow> Inl (KeyError (unescape part))
       | Some v \<Rightarrow> Inr v)"
    by (rule resolve_one_segment)
next
  show a: "unescape ''~01'' = ''~1''" and b: "unescape ''~1'' = ''/''"
    by (simp_all add: unescape_def str_replace_2_Cons str_replace_2_Nil)
  show "resolve_ref_pointer B (JStr ''#/~01'')
      (JDict [(''/'', JStr ''slash''), (''~1'', JStr ''tilde one'')]) = Inr (JStr ''tilde one'')"
    using resolve_one_segment [of "''~01''" B] a by simp
  show "resolve_ref_pointer B (JStr ''#/~1'')
      (JDict [(''/'', JStr ''slash''), (''~1'', JStr ''tilde one'')]) = Inr (JStr ''slash'')"
    using resolve_one_segment [of "''~1''" B] b by simp
next
  show "unescape (rfc6901_escape key) = key"
    by (rule unescape_escape)
next
  show "resolve_ref_pointer B (JStr (''#/'' @ rfc6901_escape key)) (JDict kvs) =
      (case map_of kvs key of None \<Rightarrow> Inl (KeyError key) | Some v \<Rightarrow> Inr v)"
    using resolve_one_segment [OF escape_no_slash, of B key kvs]
    by (simp add: unescape_escape split: option.splits)
qed

theorem unescape_order_witness:
  "CHR ''/'' \<notin> set ''a~1b~0c'' \<and>
   unescape ''a~1b~0c'' = ''a/b~c'' \<and>
   resolve_ref_pointer sample_builtins (JStr ''#/a~1b~0c'')
     (JDict [(''a'', JInt 0), (''a/b~c'', JInt 1)]) = Inr (JInt 1) \<and>
   rfc6901_escape ''~1/'' = ''~01~1'' \<and>
   resolve_ref_pointer sample_builtins (JStr ''#/~01~1'') (JDict [(''~1/'', JInt 2)]) =
     Inr (JInt 2)"
proof -
  have u: "unescape ''a~1b~0c'' = ''a/b~c''"
    by (simp add: unescape_def str_replace_2_Cons str_replace_2_Nil)
  have e: "rfc6901_escape ''~1/'' = ''~01~1''"
    by (simp add: rfc6901_escape_def)
  from unescape_order [where B = sample_builtins and part = "''a~1b~0c''"
      and kvs = "[(''a'', JInt 0), (''a/b~c'', JInt 1)]", THEN conjunct2, THEN conjunct1] u
  have 1: "resolve_ref_pointer sample_builtins (JStr ''#/a~1b~0c'')
     (JDict [(''a'', JInt 0), (''a/b~c'', JInt 1)]) = Inr (JInt 1)"
    by simp
  from unescape_order [where B = sample_builtins and key = "''~1/''"
      and kvs = "[(''~1/'', JInt 2)]", THEN conjunct2, THEN conjunct2, THEN conjunct2,
      THEN conjunct2, THEN conjunct2, THEN conjunct2, THEN conjunct2] e
  have 2: "resolve_ref_pointer sample_builtins (JStr ''#/~01~1'') (JDict [(''~1/'', JInt 2)]) =
     Inr (JInt 2)"
    by simp
  from u e 1 2 show ?thesis
    by simp
qed

section \<open>The root document is not mutated\<close>

lemma alloc_prefix: "alloc ob h = (v, h') \<Longrightarrow> prefix h h'"
  by (auto simp: alloc_def)

lemma for_each_prefix:
  assumes "\<And>x h y h'. x \<in> set xs \<Longrightarrow> f x h = Some (y, h') \<Longrightarrow> prefix h h'"
    and "for_each f xs h = Some (ys, h')"
  shows "prefix h h'"
  using assms
proof (induction xs arbitrary: h ys)
  case Nil
  then show ?case by simp
next
  case (Cons x xs)
  from Cons.prems(2) obtain y h1 ys' where
    1: "f x h = Some (y, h1)" and 2: "for_each f xs h1 = Some (ys', h')"
    by (auto split: option.splits)
  from Cons.prems(1) [OF _ 1] have "prefix h h1"
    by simp
  moreover have "prefix h1 h'"
    by (rule Cons.IH [OF _ 2]) (rule Cons.prems(1), simp_all)
  ultimately show ?case
    by (rule prefix_order.trans)
qed

lemma deepcopy_h_prefix: "deepcopy_h n v h = Some (v', h') \<Longrightarrow> prefix h h'"
proof (induction n arbitrary: v h v' h')
  case 0
  then show ?case by (cases v) auto
next
  case (Suc n)
  show ?case
  proof (cases v)
    case (VRef a)
    with Suc.prems obtain ob where ob: "heap_get h a = Some ob"
      by (auto split: option.splits)
    show ?thesis
    proof (cases ob)
      case (HDict kvs)
      with Suc.prems VRef ob obtain kvs' h1 where
        1: "for_each (\<lambda>(k, v) h. map_option (\<lambda>(v', h'). ((k, v'), h')) (deepcopy_h n v h)) kvs h = Some (kvs', h1)"
        and 2: "alloc (HDict kvs') h1 = (v', h')"
        by (auto split: option.splits)
      have "prefix h h1"
        by (rule for_each_prefix [OF _ 1]) (auto dest: Suc.IH)
      with alloc_prefix [OF 2] show ?thesis
        by (rule prefix_order.trans [rotated])
    next
      case (HList xs)
      with Suc.prems VRef ob obtain xs' h1 where
        1: "for_each (deepcopy_h n) xs h = Some (xs', h1)"
        and 2: "alloc (HList xs') h1 = (v', h')"
        by (auto split: option.splits)
      have "prefix h h1"
        by (rule for_each_prefix [OF _ 1]) (auto dest: Suc.IH)
      with alloc_prefix [OF 2] show ?thesis
        by (rule prefix_order.trans [rotated])
    qed
  qed (use Suc.prems in auto)
qed

lemma merge_props_h_prefix: "merge_props_h resolved props h = Some (v', h') \<Longrightarrow> prefix h h'"
  by (auto simp: merge_props_h_def alloc_def split: val.splits option.splits hobj.splits if_splits)

lemma placeholder_h_prefix: "placeholder_h d h = (v, h') \<Longrightarrow> prefix h h'"
  by (auto simp: placeholder_h_def alloc_def)

lemma expand_refs_h_prefix:
  "expand_refs_h n B obj root_doc path depth visited_paths h = Some (v, h') \<Longrightarrow> prefix h h'"
proof (induction n arbitrary: obj path depth visited_paths h v h')
  case 0
  then show ?case by simp
next
  case (Suc n)
  show ?case
  proof (cases "MAX_DEPTH < depth")
    case True
    with Suc.prems show ?thesis
      by (auto dest: placeholder_h_prefix)
  next
    case deep: False
    show ?thesis
    proof (cases obj)
      case (VRef a)
      with Suc.prems deep obtain ob where ob: "heap_get h a = Some ob"
        by (auto split: option.splits)
      show ?thesis
      proof (cases ob)
        case (HDict kvs)
        show ?thesis
        proof (cases "map_of kvs ''$ref''")
          case None
          with Suc.prems deep VRef ob HDict obtain kvs' h1 where
            1: "for_each (\<lambda>(key, v) h.
                            map_option (\<lambda>(v', h'). ((key, v'), h'))
                              (expand_refs_h n B v root_doc (path @ ''.'' @ key) depth
                                 visited_paths h)) kvs h = Some (kvs', h1)"
            and 2: "alloc (HDict kvs') h1 = (v, h')"
            by (auto split: option.splits)
          have "prefix h h1"
            by (rule for_each_prefix [OF _ 1]) (auto dest: Suc.IH)
          with alloc_prefix [OF 2] show ?thesis
            by (rule prefix_order.trans [rotated])
        next
          case (Some ref_val)
          with Suc.prems deep VRef ob HDict obtain ref_path where
            rp: "tree_of n h ref_val = Some ref_path"
            by (auto split: option.splits)
          let ?key = "path @ '':'' @ format_value B ref_path"
          show ?thesis
          proof (cases "?key \<in> visited_paths")
            case True
            with Suc.prems deep VRef ob HDict Some rp show ?thesis
              by (auto dest: placeholder_h_prefix)
          next
            case fresh: False
            with Suc.prems deep VRef ob HDict Some rp obtain res where
              res: "resolve_ref_pointer_h B ref_path root_doc h = Some res"
              by (auto split: option.splits)
            show ?thesis
            proof (cases res)
              case (Inl e)
              with Suc.prems deep VRef ob HDict Some rp fresh res show ?thesis
                by (auto dest: placeholder_h_prefix)
            next
              case (Inr target)
              with Suc.prems deep VRef ob HDict Some rp fresh res obtain resolved h1 props h2 resolved' h3 where
                1: "deepcopy_h n target h = Some (resolved, h1)"
                and 2: "alloc (HDict (other_props kvs)) h1 = (props, h2)"
                and 3: "merge_props_h resolved props h2 = Some (resolved', h3)"
                and 4: "expand_refs_h n B resolved' root_doc (path @ ''->'' @ format_value B ref_path)
                          (depth + 1) (insert ?key visited_paths) h3 = Some (v, h')"
                by (auto split: option.splits prod.splits)
              from deepcopy_h_prefix [OF 1] alloc_prefix [OF 2] merge_props_h_prefix [OF 3] Suc.IH [OF 4]
              show ?thesis
                by (meson prefix_order.trans)
            qed
          qed
        qed
      next
        case (HList items)
        with Suc.prems deep VRef ob obtain items' h1 where
          1: "for_each (\<lambda>(i, item) h.
                       expand_refs_h n B item root_doc (path @ ''['' @ str_of_nat i @ '']'')
                         depth visited_paths h) (enumerate 0 items) h = Some (items', h1)"
          and 2: "alloc (HList items') h1 = (v, h')"
          by (auto split: option.splits)
        have "prefix h h1"
          by (rule for_each_prefix [OF _ 1]) (auto dest: Suc.IH)
        with alloc_prefix [OF 2] show ?thesis
          by (rule prefix_order.trans [rotated])
      qed
    qed (use Suc.prems deep in auto)
  qed
qed


lemma heap_get_prefix: "prefix h h' \<Longrightarrow> heap_get h a = Some ob \<Longrightarrow> heap_get h' a = Some ob"
  by (auto simp: heap_get_def prefix_def nth_append split: if_splits)

lemma those_map_cong:
  "those (map f xs) = Some ys \<Longrightarrow> (\<And>x y. x \<in> set xs \<Longrightarrow> f x = Some y \<Longrightarrow> g x = Some y) \<Longrightarrow>
   those (map g xs) = Some ys"
proof (induction xs arbitrary: ys)
  case Nil
  then show ?case by simp
next
  case (Cons x xs)
  from Cons.prems(1) obtain y ys' where y: "f x = Some y" and ys': "those (map f xs) = Some ys'"
    and ys: "ys = y # ys'"
    by (auto split: option.splits)
  from Cons.prems(2) [OF _ y] have "g x = Some y"
    by simp
  moreover have "those (map g xs) = Some ys'"
    by (rule Cons.IH [OF ys']) (rule Cons.prems(2), simp_all)
  ultimately show ?case
    using ys by simp
qed

lemma tree_of_prefix:
  "prefix h h' \<Longrightarrow> tree_of n h v = Some t \<Longrightarrow> tree_of n h' v = Some t"
proof (induction n arbitrary: v t)
  case 0
  then show ?case by (cases v) auto
next
  case (Suc n)
  show ?case
  proof (cases v)
    case (VRef a)
    with Suc.prems obtain ob where ob: "heap_get h a = Some ob"
      by (auto split: option.splits)
    with Suc.prems(1) have ob': "heap_get h' a = Some ob"
      by (rule heap_get_prefix)
    show ?thesis
    proof (cases ob)
      case (HDict kvs)
      with Suc.prems(2) VRef ob obtain tkvs where
        1: "those (map (\<lambda>(k, v). map_option (Pair k) (tree_of n h v)) kvs) = Some tkvs"
        and t: "t = JDict tkvs"
        by auto
      have "those (map (\<lambda>(k, v). map_option (Pair k) (tree_of n h' v)) kvs) = Some tkvs"
        by (rule those_map_cong [OF 1]) (auto dest: Suc.IH [OF Suc.prems(1)])
      with VRef ob' HDict t show ?thesis
        by simp
    next
      case (HList xs)
      with Suc.prems(2) VRef ob obtain ts where
        1: "those (map (tree_of n h) xs) = Some ts"
        and t: "t = JList ts"
        by auto
      have "those (map (tree_of n h') xs) = Some ts"
        by (rule those_map_cong [OF 1]) (auto dest: Suc.IH [OF Suc.prems(1)])
      with VRef ob' HList t show ?thesis
        by simp
    qed
  qed (use Suc.prems in auto)
qed

lemma alloc_fresh: "alloc ob h = (v, h') \<Longrightarrow> v = VRef (length h) \<and> length h' = Suc (length h)"
  by (auto simp: alloc_def)

lemma expand_refs_h_fresh:
  "expand_refs_h n B obj root_doc path depth visited_paths h = Some (VRef a, h') \<Longrightarrow>
   length h \<le> a \<and> a < length h'"
proof (induction n arbitrary: obj path depth visited_paths h)
  case 0
  then show ?case by simp
next
  case (Suc n)
  show ?case
  proof (cases "MAX_DEPTH < depth")
    case True
    with Suc.prems show ?thesis
      by (auto simp: placeholder_h_def alloc_def)
  next
    case deep: False
    show ?thesis
    proof (cases obj)
      case (VRef b)
      with Suc.prems deep obtain ob where ob: "heap_get h b = Some ob"
        by (auto split: option.splits)
      show ?thesis
      proof (cases ob)
        case (HDict kvs)
        show ?thesis
        proof (cases "map_of kvs ''$ref''")
          case None
          with Suc.prems deep VRef ob HDict obtain kvs' h1 where
            1: "for_each (\<lambda>(key, v) h.
                            map_option (\<lambda>(v', h'). ((key, v'), h'))
                              (expand_refs_h n B v root_doc (path @ ''.'' @ key) depth
                                 visited_paths h)) kvs h = Some (kvs', h1)"
            and 2: "alloc (HDict kvs') h1 = (VRef a, h')"
            by (auto split: option.splits)
          have "prefix h h1"
            by (rule for_each_prefix [OF _ 1]) (auto dest: expand_refs_h_prefix)
          with alloc_fresh [OF 2] show ?thesis
            by (auto dest: prefix_length_le)
        next
          case (Some ref_val)
          with Suc.prems deep VRef ob HDict obtain ref_path where
            rp: "tree_of n h ref_val = Some ref_path"
            by (auto split: option.splits)
          let ?key = "path @ '':'' @ format_value B ref_path"
          show ?thesis
          proof (cases "?key \<in> visited_paths")
            case True
            with Suc.prems deep VRef ob HDict Some rp show ?thesis
              by (auto simp: placeholder_h_def alloc_def)
          next
            case fresh: False
            with Suc.prems deep VRef ob HDict Some rp obtain res where
              res: "resolve_ref_pointer_h B ref_path root_doc h = Some res"
              by (auto split: option.splits)
            show ?thesis
            proof (cases res)
              case (Inl e)
              with Suc.prems deep VRef ob HDict Some rp fresh res show ?thesis
                by (auto simp: placeholder_h_def alloc_def)
            next
              case (Inr target)
              with Suc.prems deep VRef ob HDict Some rp fresh res
              obtain resolved h1 props h2 resolved' h3 where
                1: "deepcopy_h n target h = Some (resolved, h1)"
                and 2: "alloc (HDict (other_props kvs)) h1 = (props, h2)"
                and 3: "merge_props_h resolved props h2 = Some (resolved', h3)"
                and 4: "expand_refs_h n B resolved' root_doc
                          (path @ ''->'' @ format_value B ref_path)
                          (depth + 1) (insert ?key visited_paths) h3 = Some (VRef a, h')"
                by (auto split: option.splits prod.splits)
              from deepcopy_h_prefix [OF 1] alloc_prefix [OF 2] merge_props_h_prefix [OF 3]
              have "prefix h h3"
                by (meson prefix_order.trans)
              with Suc.IH [OF 4] show ?thesis
                by (auto dest: prefix_length_le)
            qed
          qed
        qed
      next
        case (HList items)
        with Suc.prems deep VRef ob obtain items' h1 where
          1: "for_each (\<lambda>(i, item) h.
                       expand_refs_h n B item root_doc (path @ ''['' @ str_of_nat i @ '']'')
                         depth visited_paths h) (enumerate 0 items) h = Some (items', h1)"
          and 2: "alloc (HList items') h1 = (VRef a, h')"
          by (auto split: option.splits)
        have "prefix h h1"
          by (rule for_each_prefix [OF _ 1]) (auto dest: expand_refs_h_prefix)
        with alloc_fresh [OF 2] show ?thesis
          by (auto dest: prefix_length_le)
      qed
    qed (use Suc.prems deep in auto)
  qed
qed

section \<open>The store model computes what the tree model computes\<close>

lemma height_value: "(k, t) \<in> set kvs \<Longrightarrow> height t < height (JDict kvs)"
proof -
  assume "(k, t) \<in> set kvs"
  then have "height t \<in> insert 0 (height ` snd ` set kvs)"
    by force
  then have "height t \<le> Max (insert 0 (height ` snd ` set kvs))"
    by (intro Max_ge) auto
  then show ?thesis
    by (simp add: height.simps)
qed

lemma height_item: "t \<in> set ts \<Longrightarrow> height t < height (JList ts)"
proof -
  assume "t \<in> set ts"
  then have "height t \<in> insert 0 (height ` set ts)"
    by force
  then have "height t \<le> Max (insert 0 (height ` set ts))"
    by (intro Max_ge) auto
  then show ?thesis
    by (simp add: height.simps)
qed

lemma those_map_iff: "those (map f xs) = Some ys \<longleftrightarrow> list_all2 (\<lambda>x y. f x = Some y) xs ys"
proof (induction xs arbitrary: ys)
  case Nil
  show ?case by auto
next
  case (Cons x xs)
  show ?case
    by (cases ys) (auto simp: Cons split: option.splits)
qed

lemma those_items_iff:
  "those (map (\<lambda>(k, v). map_option (Pair k) (f v)) kvs) = Some tkvs \<longleftrightarrow>
   list_all2 (\<lambda>kv kt. fst kv = fst kt \<and> f (snd kv) = Some (snd kt)) kvs tkvs"
proof (induction kvs arbitrary: tkvs)
  case Nil
  show ?case by auto
next
  case (Cons kv kvs)
  show ?case
    by (cases tkvs; cases kv) (auto simp: Cons split: option.splits)
qed

lemma tree_of_dict:
  "tree_of n h v = Some (JDict tkvs) \<longleftrightarrow>
   (\<exists>a m kvs. v = VRef a \<and> n = Suc m \<and> heap_get h a = Some (HDict kvs) \<and> rel_items m h kvs tkvs)"
proof (cases v)
  case (VRef a)
  show ?thesis
  proof (cases n)
    case 0
    with VRef show ?thesis by simp
  next
    case (Suc m)
    with VRef show ?thesis
      by (auto simp: those_items_iff rel_items_def split: option.splits hobj.splits)
  qed
qed auto

lemma tree_of_list:
  "tree_of n h v = Some (JList ts) \<longleftrightarrow>
   (\<exists>a m vs. v = VRef a \<and> n = Suc m \<and> heap_get h a = Some (HList vs) \<and> rel_list m h vs ts)"
proof (cases v)
  case (VRef a)
  show ?thesis
  proof (cases n)
    case 0
    with VRef show ?thesis by simp
  next
    case (Suc m)
    with VRef show ?thesis
      by (auto simp: those_map_iff rel_list_def split: option.splits hobj.splits)
  qed
qed auto

lemma tree_of_scalar:
  "tree_of n h v = Some t \<Longrightarrow> (\<forall>kvs. t \<noteq> JDict kvs) \<Longrightarrow> (\<forall>ts. t \<noteq> JList ts) \<Longrightarrow>
   (\<forall>a. v \<noteq> VRef a) \<and> (\<forall>m h'. tree_of m h' v = Some t)"
  by (cases v; cases n) (auto split: option.splits hobj.splits)

lemma tree_of_fuel:
  "tree_of n h v = Some t \<Longrightarrow> height t \<le> m \<Longrightarrow> tree_of m h v = Some t"
proof (induction n arbitrary: v t m)
  case 0
  then show ?case by (cases v) auto
next
  case (Suc n)
  show ?case
  proof (cases t)
    case (JDict tkvs)
    with Suc.prems(1) obtain a kvs where v: "v = VRef a" and ob: "heap_get h a = Some (HDict kvs)"
      and rel: "rel_items n h kvs tkvs"
      by (auto simp: tree_of_dict)
    from Suc.prems(2) JDict obtain m' where m: "m = Suc m'"
      by (cases m) (auto simp: height.simps)
    have "rel_items m' h kvs tkvs"
      unfolding rel_items_def
    proof (rule list.rel_mono_strong [OF rel [unfolded rel_items_def]], goal_cases)
      case (1 kv kt)
      then have "height (snd kt) < height (JDict tkvs)"
        by (cases kt) (auto intro: height_value)
      with Suc.prems(2) JDict m have "height (snd kt) \<le> m'"
        by simp
      with 1 Suc.IH show ?case
        by blast
    qed
    with v ob m JDict show ?thesis
      by (simp add: those_items_iff rel_items_def)
  next
    case (JList ts)
    with Suc.prems(1) obtain a vs where v: "v = VRef a" and ob: "heap_get h a = Some (HList vs)"
      and rel: "rel_list n h vs ts"
      by (auto simp: tree_of_list)
    from Suc.prems(2) JList obtain m' where m: "m = Suc m'"
      by (cases m) (auto simp: height.simps)
    have "rel_list m' h vs ts"
      unfolding rel_list_def
    proof (rule list.rel_mono_strong [OF rel [unfolded rel_list_def]], goal_cases)
      case (1 x t')
      then have "height t' < height (JList ts)"
        by (auto intro: height_item)
      with Suc.prems(2) JList m have "height t' \<le> m'"
        by simp
      with 1 Suc.IH show ?case
        by blast
    qed
    with v ob m JList show ?thesis
      by (simp add: those_map_iff rel_list_def)
  qed (use Suc.prems(1) in \<open>auto dest: tree_of_scalar\<close>)
qed


lemma tree_of_height: "tree_of n h v = Some t \<Longrightarrow> height t \<le> n"
proof (induction n arbitrary: v t)
  case 0
  then show ?case by (cases v) (auto simp: height.simps)
next
  case (Suc n)
  show ?case
  proof (cases t)
    case (JDict tkvs)
    with Suc.prems obtain a kvs where rel: "rel_items n h kvs tkvs"
      by (auto simp: tree_of_dict)
    have "height (snd kt) \<le> n" if "kt \<in> set tkvs" for kt
    proof -
      from that rel obtain kv where "tree_of n h (snd kv) = Some (snd kt)"
        unfolding rel_items_def by (auto simp: list_all2_conv_all_nth in_set_conv_nth)
      then show ?thesis
        by (rule Suc.IH)
    qed
    with JDict show ?thesis
      by (auto simp: height.simps)
  next
    case (JList ts)
    with Suc.prems obtain a vs where rel: "rel_list n h vs ts"
      by (auto simp: tree_of_list)
    have "height t' \<le> n" if "t' \<in> set ts" for t'
    proof -
      from that rel obtain x where "tree_of n h x = Some t'"
        unfolding rel_list_def by (auto simp: list_all2_conv_all_nth in_set_conv_nth)
      then show ?thesis
        by (rule Suc.IH)
    qed
    with JList show ?thesis
      by (auto simp: height.simps)
  qed (simp_all add: height.simps)
qed

lemma repr_iff: "repr h v t \<longleftrightarrow> (\<exists>n. tree_of n h v = Some t)"
  by (auto simp: repr_def intro: tree_of_fuel)

lemma repr_fuel: "repr h v t \<Longrightarrow> height t \<le> m \<Longrightarrow> tree_of m h v = Some t"
  by (auto simp: repr_def intro: tree_of_fuel)

lemma repr_prefix: "repr h v t \<Longrightarrow> prefix h h' \<Longrightarrow> repr h' v t"
  by (auto simp: repr_def intro: tree_of_prefix)

lemma repr_items_prefix: "repr_items h kvs tkvs \<Longrightarrow> prefix h h' \<Longrightarrow> repr_items h' kvs tkvs"
  unfolding repr_items_def by (erule list_all2_mono) (auto intro: repr_prefix)

lemma repr_dict:
  "repr h v (JDict tkvs) \<longleftrightarrow>
   (\<exists>a kvs. v = VRef a \<and> heap_get h a = Some (HDict kvs) \<and> repr_items h kvs tkvs)"
proof
  assume "repr h v (JDict tkvs)"
  then obtain a m kvs where v: "v = VRef a" and ob: "heap_get h a = Some (HDict kvs)"
    and rel: "rel_items m h kvs tkvs"
    by (auto simp: repr_def tree_of_dict)
  from rel have "repr_items h kvs tkvs"
    unfolding rel_items_def repr_items_def
    by (rule list_all2_mono) (auto simp: repr_iff)
  with v ob show "\<exists>a kvs. v = VRef a \<and> heap_get h a = Some (HDict kvs) \<and> repr_items h kvs tkvs"
    by blast
next
  assume "\<exists>a kvs. v = VRef a \<and> heap_get h a = Some (HDict kvs) \<and> repr_items h kvs tkvs"
  then obtain a kvs where v: "v = VRef a" and ob: "heap_get h a = Some (HDict kvs)"
    and rel: "repr_items h kvs tkvs"
    by blast
  obtain m where m: "height (JDict tkvs) = Suc m"
    by (simp add: height.simps)
  from rel have "rel_items m h kvs tkvs"
    unfolding rel_items_def repr_items_def
  proof (rule list.rel_mono_strong, goal_cases)
    case (1 kv kt)
    then have "height (snd kt) < height (JDict tkvs)"
      by (cases kt) (auto intro: height_value)
    with m 1 show ?case
      by (auto intro: repr_fuel)
  qed
  with v ob m show "repr h v (JDict tkvs)"
    by (simp add: repr_def those_items_iff rel_items_def)
qed

lemma repr_list:
  "repr h v (JList ts) \<longleftrightarrow>
   (\<exists>a vs. v = VRef a \<and> heap_get h a = Some (HList vs) \<and> list_all2 (repr h) vs ts)"
proof
  assume "repr h v (JList ts)"
  then obtain a m vs where v: "v = VRef a" and ob: "heap_get h a = Some (HList vs)"
    and rel: "rel_list m h vs ts"
    by (auto simp: repr_def tree_of_list)
  from rel have "list_all2 (repr h) vs ts"
    unfolding rel_list_def
    by (rule list_all2_mono) (auto simp: repr_iff)
  with v ob show "\<exists>a vs. v = VRef a \<and> heap_get h a = Some (HList vs) \<and> list_all2 (repr h) vs ts"
    by blast
next
  assume "\<exists>a vs. v = VRef a \<and> heap_get h a = Some (HList vs) \<and> list_all2 (repr h) vs ts"
  then obtain a vs where v: "v = VRef a" and ob: "heap_get h a = Some (HList vs)"
    and rel: "list_all2 (repr h) vs ts"
    by blast
  obtain m where m: "height (JList ts) = Suc m"
    by (simp add: height.simps)
  from rel have "rel_list m h vs ts"
    unfolding rel_list_def
  proof (rule list.rel_mono_strong, goal_cases)
    case (1 x t')
    then have "height t' < height (JList ts)"
      by (auto intro: height_item)
    with m 1 show ?case
      by (auto intro: repr_fuel)
  qed
  with v ob m show "repr h v (JList ts)"
    by (simp add: repr_def those_map_iff rel_list_def)
qed

lemma repr_scalar:
  "(\<forall>kvs. t \<noteq> JDict kvs) \<Longrightarrow> (\<forall>ts. t \<noteq> JList ts) \<Longrightarrow>
   repr h v t \<longleftrightarrow>
     (v, t) \<in> {(VNull, JNull)} \<union> range (\<lambda>b. (VBool b, JBool b)) \<union> range (\<lambda>i. (VInt i, JInt i))
       \<union> range (\<lambda>x. (VFloat x, JFloat x)) \<union> range (\<lambda>s. (VStr s, JStr s))"
  by (cases v; cases t) (auto simp: repr_def height.simps)


lemma for_each_rel:
  assumes P_mono: "\<And>h1 h2 x t. P h1 x t \<Longrightarrow> prefix h1 h2 \<Longrightarrow> P h2 x t"
    and Q_mono: "\<And>h1 h2 y t. Q h1 y t \<Longrightarrow> prefix h1 h2 \<Longrightarrow> Q h2 y t"
  shows "list_all2 (P h) xs ts \<Longrightarrow>
    (\<And>x t h1. x \<in> set xs \<Longrightarrow> t \<in> set ts \<Longrightarrow> prefix h h1 \<Longrightarrow> P h1 x t \<Longrightarrow>
       \<exists>y h2. f x h1 = Some (y, h2) \<and> prefix h1 h2 \<and> Q h2 y t) \<Longrightarrow>
    \<exists>ys h'. for_each f xs h = Some (ys, h') \<and> prefix h h' \<and> list_all2 (Q h') ys ts"
proof (induction xs arbitrary: ts h)
  case Nil
  then show ?case by simp
next
  case (Cons x xs)
  from Cons.prems(1) obtain t ts' where ts: "ts = t # ts'" and px: "P h x t"
    and rel: "list_all2 (P h) xs ts'"
    by (auto simp: list_all2_Cons1)
  from px ts have "\<exists>y h2. f x h = Some (y, h2) \<and> prefix h h2 \<and> Q h2 y t"
    by (intro Cons.prems(2)) auto
  then obtain y h1 where
    1: "f x h = Some (y, h1)" and p1: "prefix h h1" and q: "Q h1 y t"
    by blast
  from rel p1 have rel1: "list_all2 (P h1) xs ts'"
    by (auto elim!: list_all2_mono intro: P_mono)
  have "\<exists>ys h'. for_each f xs h1 = Some (ys, h') \<and> prefix h1 h' \<and> list_all2 (Q h') ys ts'"
  proof (rule Cons.IH [OF rel1])
    fix x' t' h2
    assume "x' \<in> set xs" "t' \<in> set ts'" "prefix h1 h2" "P h2 x' t'"
    with p1 ts show "\<exists>y h3. f x' h2 = Some (y, h3) \<and> prefix h2 h3 \<and> Q h3 y t'"
      by (intro Cons.prems(2)) (auto intro: prefix_order.trans)
  qed
  then obtain ys h' where 2: "for_each f xs h1 = Some (ys, h')" and p2: "prefix h1 h'"
    and qs: "list_all2 (Q h') ys ts'"
    by blast
  from q p2 have "Q h' y t"
    by (rule Q_mono)
  with 1 2 p1 p2 qs ts show ?case
    by (auto intro: prefix_order.trans)
qed

lemma repr_items_map_of:
  "repr_items h kvs tkvs \<Longrightarrow>
   (case map_of tkvs x of
      None \<Rightarrow> map_of kvs x = None
    | Some t \<Rightarrow> \<exists>v. map_of kvs x = Some v \<and> repr h v t)"
  unfolding repr_items_def
  by (induction kvs tkvs rule: list_all2_induct) (auto split: option.splits)

lemma repr_list_get:
  "list_all2 (repr h) vs ts \<Longrightarrow>
   (case list_get ts i of
      Inl e \<Rightarrow> list_get vs i = Inl e
    | Inr t \<Rightarrow> \<exists>v. list_get vs i = Inr v \<and> repr h v t)"
  by (auto simp: list_get_def list_all2_conv_all_nth)

lemma resolve_parts_h_refines:
  "repr h cur t \<Longrightarrow>
   (case resolve_parts B p t parts of
      Inl e \<Rightarrow> resolve_parts_h B p h cur parts = Some (Inl e)
    | Inr t' \<Rightarrow> \<exists>v. resolve_parts_h B p h cur parts = Some (Inr v) \<and> repr h v t')"
proof (induction parts arbitrary: cur t)
  case Nil
  then show ?case by simp
next
  case (Cons part parts)
  show ?case
  proof (cases t)
    case (JDict tkvs)
    with Cons.prems obtain a kvs where cur: "cur = VRef a"
      and ob: "heap_get h a = Some (HDict kvs)" and rel: "repr_items h kvs tkvs"
      by (auto simp: repr_dict)
    show ?thesis
    proof (cases "map_of tkvs (unescape part)")
      case None
      with repr_items_map_of [OF rel, of "unescape part"] cur ob JDict show ?thesis
        by simp
    next
      case (Some t1)
      with repr_items_map_of [OF rel, of "unescape part"] obtain v1 where
        v1: "map_of kvs (unescape part) = Some v1" and r1: "repr h v1 t1"
        by auto
      from Cons.IH [OF r1] cur ob JDict Some v1 show ?thesis
        by (simp split: sum.splits)
    qed
  next
    case (JList ts)
    with Cons.prems obtain a vs where cur: "cur = VRef a"
      and ob: "heap_get h a = Some (HList vs)" and rel: "list_all2 (repr h) vs ts"
      by (auto simp: repr_list)
    show ?thesis
    proof (cases "py_int B (unescape part)")
      case None
      with cur ob JList show ?thesis
        by simp
    next
      case (Some i)
      show ?thesis
      proof (cases "list_get ts i")
        case (Inl e)
        with repr_list_get [OF rel, of i] cur ob JList Some show ?thesis
          by simp
      next
        case (Inr t1)
        with repr_list_get [OF rel, of i] obtain v1 where
          v1: "list_get vs i = Inr v1" and r1: "repr h v1 t1"
          by auto
        from Cons.IH [OF r1] cur ob JList Some Inr v1 show ?thesis
          by (simp split: sum.splits)
      qed
    qed
  qed (use Cons.prems in \<open>auto simp: repr_scalar\<close>)
qed

lemma resolve_ref_pointer_h_refines:
  "repr h root_doc r \<Longrightarrow>
   (case resolve_ref_pointer B ref r of
      Inl e \<Rightarrow> resolve_ref_pointer_h B ref root_doc h = Some (Inl e)
    | Inr t \<Rightarrow> \<exists>v. resolve_ref_pointer_h B ref root_doc h = Some (Inr v) \<and> repr h v t)"
proof (cases ref)
  case (JStr s)
  assume "repr h root_doc r"
  from resolve_parts_h_refines [OF this, of B s "str_split CHR ''/'' (drop 2 s)"] JStr
  show ?thesis
    by (simp add: resolve_ref_pointer_def resolve_ref_pointer_h_def split: sum.splits)
qed (simp_all add: resolve_ref_pointer_def resolve_ref_pointer_h_def)


lemma heap_get_alloc: "alloc ob h = (v, h') \<Longrightarrow> v = VRef (length h) \<and> heap_get h' (length h) = Some ob"
  by (auto simp: alloc_def heap_get_def)

lemma repr_alloc_dict:
  assumes "repr_items h kvs tkvs" and "alloc (HDict kvs) h = (v, h')"
  shows "repr h' v (JDict tkvs)"
proof -
  from assms(2) have "prefix h h'"
    by (rule alloc_prefix)
  with assms(1) have "repr_items h' kvs tkvs"
    by (rule repr_items_prefix)
  with heap_get_alloc [OF assms(2)] show ?thesis
    by (auto simp: repr_dict)
qed

lemma repr_alloc_list:
  assumes "list_all2 (repr h) vs ts" and "alloc (HList vs) h = (v, h')"
  shows "repr h' v (JList ts)"
proof -
  from assms(2) have "prefix h h'"
    by (rule alloc_prefix)
  with assms(1) have "list_all2 (repr h') vs ts"
    by (auto elim!: list_all2_mono intro: repr_prefix)
  with heap_get_alloc [OF assms(2)] show ?thesis
    by (auto simp: repr_list)
qed

lemma deepcopy_h_refines:
  "repr h v t \<Longrightarrow> height t \<le> m \<Longrightarrow>
   \<exists>v' h'. deepcopy_h m v h = Some (v', h') \<and> prefix h h' \<and> repr h' v' t"
proof (induction m arbitrary: v t h)
  case 0
  then have "(\<forall>kvs. t \<noteq> JDict kvs) \<and> (\<forall>ts. t \<noteq> JList ts)"
    by (auto simp: height.simps)
  with "0.prems"(1) show ?case
    by (cases v) (auto simp: repr_scalar)
next
  case (Suc m)
  show ?case
  proof (cases t)
    case (JDict tkvs)
    with Suc.prems(1) obtain a kvs where v: "v = VRef a"
      and ob: "heap_get h a = Some (HDict kvs)" and rel: "repr_items h kvs tkvs"
      by (auto simp: repr_dict)
    let ?R = "\<lambda>h kv kt. fst kv = fst (kt :: string \<times> json) \<and> repr h (snd kv) (snd kt)"
    let ?f = "\<lambda>(k, v) h. map_option (\<lambda>(v', h'). ((k, v'), h')) (deepcopy_h m v h)"
    have "\<exists>ys h'. for_each ?f kvs h = Some (ys, h') \<and> prefix h h' \<and> list_all2 (?R h') ys tkvs"
    proof (rule for_each_rel [where P = ?R and Q = ?R])
      show "list_all2 (?R h) kvs tkvs"
        using rel by (simp add: repr_items_def)
    next
      fix kv kt h1
      assume kt: "kt \<in> set tkvs" and r: "?R h1 kv kt"
      have "height (snd kt) < height (JDict tkvs)"
        using kt height_value [of "fst kt" "snd kt" tkvs] by simp
      with Suc.prems(2) JDict have "height (snd kt) \<le> m"
        by simp
      with r Suc.IH [of h1 "snd kv" "snd kt"] obtain v' h2 where
        "deepcopy_h m (snd kv) h1 = Some (v', h2)" "prefix h1 h2" "repr h2 v' (snd kt)"
        by blast
      with r show "\<exists>y h2. ?f kv h1 = Some (y, h2) \<and> prefix h1 h2 \<and> ?R h2 y kt"
        by (cases kv) auto
    qed (auto intro: repr_prefix)
    then obtain kvs' h1 where 1: "for_each ?f kvs h = Some (kvs', h1)" and p: "prefix h h1"
      and rel': "repr_items h1 kvs' tkvs"
      by (auto simp: repr_items_def)
    obtain v' h' where a: "alloc (HDict kvs') h1 = (v', h')"
      by (cases "alloc (HDict kvs') h1")
    from repr_alloc_dict [OF rel' a] alloc_prefix [OF a] p v ob 1 a JDict show ?thesis
      by (auto intro: prefix_order.trans)
  next
    case (JList ts)
    with Suc.prems(1) obtain a vs where v: "v = VRef a"
      and ob: "heap_get h a = Some (HList vs)" and rel: "list_all2 (repr h) vs ts"
      by (auto simp: repr_list)
    have "\<exists>ys h'. for_each (deepcopy_h m) vs h = Some (ys, h') \<and> prefix h h'
        \<and> list_all2 (repr h') ys ts"
    proof (rule for_each_rel [where P = repr and Q = repr])
      show "list_all2 (repr h) vs ts"
        by (rule rel)
    next
      fix x t' h1
      assume t': "t' \<in> set ts" and r: "repr h1 x t'"
      from t' have "height t' < height (JList ts)"
        by (rule height_item)
      with Suc.prems(2) JList have "height t' \<le> m"
        by simp
      with r show "\<exists>y h2. deepcopy_h m x h1 = Some (y, h2) \<and> prefix h1 h2 \<and> repr h2 y t'"
        by (rule Suc.IH)
    qed (auto intro: repr_prefix)
    then obtain vs' h1 where 1: "for_each (deepcopy_h m) vs h = Some (vs', h1)"
      and p: "prefix h h1" and rel': "list_all2 (repr h1) vs' ts"
      by blast
    obtain v' h' where a: "alloc (HList vs') h1 = (v', h')"
      by (cases "alloc (HList vs') h1")
    from repr_alloc_list [OF rel' a] alloc_prefix [OF a] p v ob 1 a JList show ?thesis
      by (auto intro: prefix_order.trans)
  qed (use Suc.prems(1) in \<open>auto simp: repr_scalar\<close>)
qed


lemma repr_items_keys: "repr_items h kvs tkvs \<Longrightarrow> map fst kvs = map fst tkvs"
  unfolding repr_items_def by (induction kvs tkvs rule: list_all2_induct) auto

lemma repr_items_dict_set:
  assumes "repr_items h a b" and "repr h v t"
  shows "repr_items h (dict_set a k v) (dict_set b k t)"
proof -
  from assms(1) have keys: "fst ` set a = fst ` set b"
    using repr_items_keys [OF assms(1), THEN arg_cong, of set] by simp
  from assms have "repr_items h (a @ [(k, v)]) (b @ [(k, t)])"
    by (auto simp: repr_items_def intro: list_all2_appendI)
  moreover from assms have
    "repr_items h (map (\<lambda>(k', v'). if k' = k then (k', v) else (k', v')) a)
       (map (\<lambda>(k', t'). if k' = k then (k', t) else (k', t')) b)"
    by (auto simp: repr_items_def list_all2_map1 list_all2_map2 elim!: list_all2_mono)
  ultimately show ?thesis
    using keys by (simp add: dict_set_def)
qed

lemma repr_items_foldl:
  "repr_items h xs ys \<Longrightarrow> repr_items h acc acc' \<Longrightarrow>
   repr_items h (foldl (\<lambda>acc (k, v). dict_set acc k v) acc xs)
     (foldl (\<lambda>acc (k, v). dict_set acc k v) acc' ys)"
proof (induction xs arbitrary: ys acc acc')
  case Nil
  then show ?case by (simp add: repr_items_def)
next
  case (Cons x xs)
  from Cons.prems(1) obtain y ys' where ys: "ys = y # ys'" and k: "fst x = fst y"
    and r: "repr h (snd x) (snd y)" and rest: "repr_items h xs ys'"
    by (auto simp: repr_items_def list_all2_Cons1)
  from Cons.prems(2) r have "repr_items h (dict_set acc (fst x) (snd x)) (dict_set acc' (fst x) (snd y))"
    by (rule repr_items_dict_set)
  from Cons.IH [OF rest this] ys k show ?case
    by (cases x; cases y) simp
qed

lemma repr_items_dict_merge:
  "repr_items h a b \<Longrightarrow> repr_items h p q \<Longrightarrow> repr_items h (dict_merge a p) (dict_merge b q)"
  unfolding dict_merge_def
  by (rule repr_items_foldl) (auto simp: repr_items_def intro: list_all2_appendI)

lemma repr_items_other_props:
  "repr_items h kvs tkvs \<Longrightarrow> repr_items h (other_props kvs) (other_props tkvs)"
  unfolding repr_items_def other_props_def
  by (induction kvs tkvs rule: list_all2_induct) (auto simp: case_prod_beta)

lemma merge_props_h_refines:
  assumes res: "repr h1 resolved rt" and props: "repr_items h1 pkvs tpkvs"
    and a: "alloc (HDict pkvs) h1 = (p, h2)"
  shows "\<exists>v' h3. merge_props_h resolved p h2 = Some (v', h3) \<and> prefix h2 h3
           \<and> repr h3 v' (merge_props rt tpkvs)"
proof -
  from a have p12: "prefix h1 h2"
    by (rule alloc_prefix)
  from heap_get_alloc [OF a] have p: "p = VRef (length h1)"
    and pob: "heap_get h2 (length h1) = Some (HDict pkvs)"
    by simp_all
  from props have empty: "pkvs = [] \<longleftrightarrow> tpkvs = []"
    by (auto simp: repr_items_def)
  from res p12 have res2: "repr h2 resolved rt"
    by (rule repr_prefix)
  show ?thesis
  proof (cases "pkvs = []")
    case True
    with p pob empty res2 show ?thesis
      by (auto simp: merge_props_h_def merge_props_def)
  next
    case False
    show ?thesis
    proof (cases rt)
      case (JDict rtkvs)
      with res2 obtain b rkvs where r: "resolved = VRef b"
        and rob: "heap_get h2 b = Some (HDict rkvs)" and rel: "repr_items h2 rkvs rtkvs"
        by (auto simp: repr_dict)
      obtain v' h3 where m: "alloc (HDict (dict_merge rkvs pkvs)) h2 = (v', h3)"
        by (cases "alloc (HDict (dict_merge rkvs pkvs)) h2")
      from props p12 have "repr_items h2 pkvs tpkvs"
        by (rule repr_items_prefix)
      with rel have "repr_items h2 (dict_merge rkvs pkvs) (dict_merge rtkvs tpkvs)"
        by (rule repr_items_dict_merge)
      from repr_alloc_dict [OF this m] alloc_prefix [OF m] False empty p pob r rob m JDict
      show ?thesis
        by (auto simp: merge_props_h_def merge_props_def)
    next
      case (JList ts)
      with res2 obtain b vs where "resolved = VRef b" "heap_get h2 b = Some (HList vs)"
        by (auto simp: repr_list)
      with False empty p pob res2 JList show ?thesis
        by (auto simp: merge_props_h_def merge_props_def)
    qed (use False empty p pob res2 in \<open>auto simp: merge_props_h_def merge_props_def repr_scalar\<close>)
  qed
qed

lemma fuel_for_all:
  "(\<And>x. x \<in> set xs \<Longrightarrow> \<exists>n. \<forall>m\<ge>n. F x m) \<Longrightarrow> \<exists>n::nat. \<forall>m\<ge>n. \<forall>x \<in> set xs. F x m"
proof (induction xs)
  case Nil
  show ?case by simp
next
  case (Cons x xs)
  from Cons.prems [of x] obtain n1 where 1: "\<forall>m\<ge>n1. F x m"
    by auto
  from Cons.IH Cons.prems obtain n2 where 2: "\<forall>m\<ge>n2. \<forall>x \<in> set xs. F x m"
    by auto
  from 1 2 have "\<forall>m\<ge>max n1 n2. \<forall>y \<in> set (x # xs). F y m"
    by auto
  then show ?case
    by blast
qed

lemma placeholder_h_repr:
  assumes "placeholder_h d h = (v, h')"
  shows "repr h' v (placeholder d)"
proof -
  have "repr_items h [(''type'', VStr ''object''), (''description'', VStr d)]
          [(''type'', JStr ''object''), (''description'', JStr d)]"
    by (simp add: repr_items_def repr_def height.simps)
  from repr_alloc_dict [OF this] assms show ?thesis
    by (simp add: placeholder_h_def placeholder_def)
qed

lemma list_all2_enumerate:
  "list_all2 R vs ts \<Longrightarrow>
   list_all2 (\<lambda>iv jt. fst iv = fst jt \<and> R (snd iv) (snd jt)) (enumerate n vs) (enumerate n ts)"
  by (induction vs ts arbitrary: n rule: list_all2_induct) auto

lemma refines_too_deep:
  assumes "MAX_DEPTH < depth"
  shows "refines_at (Suc m) B t r path depth visited_paths"
  unfolding refines_at_def
proof (intro allI impI)
  fix h obj root_doc
  obtain v h' where p: "placeholder_h (''Max expansion depth reached at '' @ path) h = (v, h')"
    by (cases "placeholder_h (''Max expansion depth reached at '' @ path) h")
  from placeholder_h_repr [OF p] placeholder_h_prefix [OF p] p assms
  show "\<exists>v h'. expand_refs_h (Suc m) B obj root_doc path depth visited_paths h = Some (v, h') \<and>
      prefix h h' \<and> repr h' v (expand_refs B t r path depth visited_paths)"
    by (auto simp: expand_refs_too_deep)
qed

lemma refines_scalar:
  assumes "depth \<le> MAX_DEPTH" and "\<forall>kvs. t \<noteq> JDict kvs" and "\<forall>ts. t \<noteq> JList ts"
  shows "refines_at (Suc m) B t r path depth visited_paths"
  unfolding refines_at_def
proof (intro allI impI)
  fix h obj root_doc
  assume "repr h obj t"
  with assms show "\<exists>v h'. expand_refs_h (Suc m) B obj root_doc path depth visited_paths h
      = Some (v, h') \<and> prefix h h' \<and> repr h' v (expand_refs B t r path depth visited_paths)"
    by (cases t; cases obj) (auto simp: repr_scalar expand_refs_scalar)
qed

lemma refines_list:
  assumes deep: "depth \<le> MAX_DEPTH"
    and items: "\<And>i item. (i, item) \<in> set (enumerate 0 ts) \<Longrightarrow>
      refines_at m B item r (path @ ''['' @ str_of_nat i @ '']'') depth visited_paths"
  shows "refines_at (Suc m) B (JList ts) r path depth visited_paths"
  unfolding refines_at_def
proof (intro allI impI)
  fix h obj root_doc
  assume root: "repr h root_doc r" and obj: "repr h obj (JList ts)"
  from obj obtain a vs where v: "obj = VRef a" and ob: "heap_get h a = Some (HList vs)"
    and rel: "list_all2 (repr h) vs ts"
    by (auto simp: repr_list)
  let ?f = "\<lambda>(i, item) h. expand_refs_h m B item root_doc (path @ ''['' @ str_of_nat i @ '']'')
              depth visited_paths h"
  let ?P = "\<lambda>h iv jt. fst iv = fst (jt :: nat \<times> json) \<and> repr h (snd iv) (snd jt)
              \<and> repr h root_doc r"
  let ?Q = "\<lambda>h y jt. repr h y (expand_refs B (snd jt) r
              (path @ ''['' @ str_of_nat (fst (jt :: nat \<times> json)) @ '']'') depth visited_paths)"
  have "\<exists>ys h'. for_each ?f (enumerate 0 vs) h = Some (ys, h') \<and> prefix h h'
      \<and> list_all2 (?Q h') ys (enumerate 0 ts)"
  proof (rule for_each_rel [where P = ?P and Q = ?Q])
    from list_all2_enumerate [OF rel, of 0] root
    show "list_all2 (?P h) (enumerate 0 vs) (enumerate 0 ts)"
      by (auto elim!: list_all2_mono)
  next
    fix iv jt h1
    assume jt: "jt \<in> set (enumerate 0 ts)" and P: "?P h1 iv jt"
    from jt have "refines_at m B (snd jt) r (path @ ''['' @ str_of_nat (fst jt) @ '']'')
        depth visited_paths"
      by (intro items) simp
    with P show "\<exists>y h2. ?f iv h1 = Some (y, h2) \<and> prefix h1 h2 \<and> ?Q h2 y jt"
      unfolding refines_at_def by (cases iv) auto
  qed (auto intro: repr_prefix)
  then obtain ys h1 where 1: "for_each ?f (enumerate 0 vs) h = Some (ys, h1)"
    and p: "prefix h h1" and q: "list_all2 (?Q h1) ys (enumerate 0 ts)"
    by blast
  obtain v' h' where a: "alloc (HList ys) h1 = (v', h')"
    by (cases "alloc (HList ys) h1")
  from q have "list_all2 (repr h1) ys
      (map (\<lambda>(i, item). expand_refs B item r (path @ ''['' @ str_of_nat i @ '']'') depth
              visited_paths) (enumerate 0 ts))"
    by (simp add: list_all2_map2 case_prod_beta)
  from repr_alloc_list [OF this a] alloc_prefix [OF a] p deep v ob 1 a
  show "\<exists>v h'. expand_refs_h (Suc m) B obj root_doc path depth visited_paths h = Some (v, h') \<and>
      prefix h h' \<and> repr h' v (expand_refs B (JList ts) r path depth visited_paths)"
    by (auto simp: expand_refs_list intro: prefix_order.trans)
qed

lemma refines_dict:
  assumes deep: "depth \<le> MAX_DEPTH" and none: "map_of tkvs ''$ref'' = None"
    and vals: "\<And>key t. (key, t) \<in> set tkvs \<Longrightarrow>
      refines_at m B t r (path @ ''.'' @ key) depth visited_paths"
  shows "refines_at (Suc m) B (JDict tkvs) r path depth visited_paths"
  unfolding refines_at_def
proof (intro allI impI)
  fix h obj root_doc
  assume root: "repr h root_doc r" and obj: "repr h obj (JDict tkvs)"
  from obj obtain a kvs where v: "obj = VRef a" and ob: "heap_get h a = Some (HDict kvs)"
    and rel: "repr_items h kvs tkvs"
    by (auto simp: repr_dict)
  from repr_items_map_of [OF rel, of "''$ref''"] none have none': "map_of kvs ''$ref'' = None"
    by simp
  let ?f = "\<lambda>(key, v) h. map_option (\<lambda>(v', h'). ((key, v'), h'))
              (expand_refs_h m B v root_doc (path @ ''.'' @ key) depth visited_paths h)"
  let ?P = "\<lambda>h kv kt. fst kv = fst (kt :: string \<times> json) \<and> repr h (snd kv) (snd kt)
              \<and> repr h root_doc r"
  let ?Q = "\<lambda>h kv kt. fst kv = fst (kt :: string \<times> json) \<and> repr h (snd kv)
              (expand_refs B (snd kt) r (path @ ''.'' @ fst kt) depth visited_paths)"
  have "\<exists>ys h'. for_each ?f kvs h = Some (ys, h') \<and> prefix h h' \<and> list_all2 (?Q h') ys tkvs"
  proof (rule for_each_rel [where P = ?P and Q = ?Q])
    from rel root show "list_all2 (?P h) kvs tkvs"
      by (auto simp: repr_items_def elim!: list_all2_mono)
  next
    fix kv kt h1
    assume kt: "kt \<in> set tkvs" and P: "?P h1 kv kt"
    from kt have "refines_at m B (snd kt) r (path @ ''.'' @ fst kt) depth visited_paths"
      by (intro vals) simp
    with P obtain v' h2 where
      "expand_refs_h m B (snd kv) root_doc (path @ ''.'' @ fst kt) depth visited_paths h1
         = Some (v', h2)" "prefix h1 h2"
      "repr h2 v' (expand_refs B (snd kt) r (path @ ''.'' @ fst kt) depth visited_paths)"
      unfolding refines_at_def by blast
    with P show "\<exists>y h2. ?f kv h1 = Some (y, h2) \<and> prefix h1 h2 \<and> ?Q h2 y kt"
      by (cases kv) auto
  qed (auto intro: repr_prefix)
  then obtain ys h1 where 1: "for_each ?f kvs h = Some (ys, h1)"
    and p: "prefix h h1" and q: "list_all2 (?Q h1) ys tkvs"
    by blast
  obtain v' h' where a: "alloc (HDict ys) h1 = (v', h')"
    by (cases "alloc (HDict ys) h1")
  from q have "repr_items h1 ys
      (map (\<lambda>(key, v). (key, expand_refs B v r (path @ ''.'' @ key) depth visited_paths)) tkvs)"
    by (simp add: repr_items_def list_all2_map2 case_prod_beta)
  from repr_alloc_dict [OF this a] alloc_prefix [OF a] p deep none none' v ob 1 a
  show "\<exists>v h'. expand_refs_h (Suc m) B obj root_doc path depth visited_paths h = Some (v, h') \<and>
      prefix h h' \<and> repr h' v (expand_refs B (JDict tkvs) r path depth visited_paths)"
    by (auto simp: expand_refs_dict intro: prefix_order.trans)
qed


lemma refines_ref:
  assumes deep: "depth \<le> MAX_DEPTH" and some: "map_of tkvs ''$ref'' = Some ref_path"
    and fuel: "height ref_path \<le> m"
    and rec: "\<And>target. path @ '':'' @ format_value B ref_path \<notin> visited_paths \<Longrightarrow>
      resolve_ref_pointer B ref_path r = Inr target \<Longrightarrow>
      height target \<le> m \<and>
      refines_at m B (merge_props (deepcopy target) (other_props tkvs)) r
        (path @ ''->'' @ format_value B ref_path) (depth + 1)
        (insert (path @ '':'' @ format_value B ref_path) visited_paths)"
  shows "refines_at (Suc m) B (JDict tkvs) r path depth visited_paths"
  unfolding refines_at_def
proof (intro allI impI)
  fix h obj root_doc
  assume root: "repr h root_doc r" and obj: "repr h obj (JDict tkvs)"
  let ?key = "path @ '':'' @ format_value B ref_path"
  let ?goal = "\<exists>v h'. expand_refs_h (Suc m) B obj root_doc path depth visited_paths h
      = Some (v, h') \<and> prefix h h' \<and>
      repr h' v (expand_refs B (JDict tkvs) r path depth visited_paths)"
  from obj obtain a kvs where v: "obj = VRef a" and ob: "heap_get h a = Some (HDict kvs)"
    and rel: "repr_items h kvs tkvs"
    by (auto simp: repr_dict)
  from repr_items_map_of [OF rel, of "''$ref''"] some obtain ref_val where
    rv: "map_of kvs ''$ref'' = Some ref_val" and rr: "repr h ref_val ref_path"
    by auto
  from rr fuel have dec: "tree_of m h ref_val = Some ref_path"
    by (rule repr_fuel)
  show ?goal
  proof (cases "?key \<in> visited_paths")
    case True
    obtain pv ph where p: "placeholder_h (''Circular reference: '' @ format_value B ref_path) h
        = (pv, ph)"
      by (cases "placeholder_h (''Circular reference: '' @ format_value B ref_path) h")
    from placeholder_h_repr [OF p] placeholder_h_prefix [OF p] p True deep some v ob rv dec
    show ?thesis
      by (auto simp: expand_refs_ref)
  next
    case fresh: False
    show ?thesis
    proof (cases "resolve_ref_pointer B ref_path r")
      case (Inl e)
      with resolve_ref_pointer_h_refines [OF root, of B ref_path]
      have res: "resolve_ref_pointer_h B ref_path root_doc h = Some (Inl e)"
        by simp
      let ?d = "''Error resolving '' @ format_value B ref_path @ '': '' @ str_of_error B e"
      obtain pv ph where p: "placeholder_h ?d h = (pv, ph)"
        by (cases "placeholder_h ?d h")
      from placeholder_h_repr [OF p] placeholder_h_prefix [OF p] p fresh deep some v ob rv dec
        res Inl
      show ?thesis
        by (auto simp: expand_refs_ref)
    next
      case (Inr target)
      with resolve_ref_pointer_h_refines [OF root, of B ref_path] obtain tv where
        res: "resolve_ref_pointer_h B ref_path root_doc h = Some (Inr tv)"
        and tr: "repr h tv target"
        by auto
      from rec [OF fresh Inr] have ht: "height target \<le> m"
        and sub: "refines_at m B (merge_props (deepcopy target) (other_props tkvs)) r
          (path @ ''->'' @ format_value B ref_path) (depth + 1) (insert ?key visited_paths)"
        by simp_all
      from deepcopy_h_refines [OF tr ht] obtain resolved h1 where
        dc: "deepcopy_h m tv h = Some (resolved, h1)" and p1: "prefix h h1"
        and r1: "repr h1 resolved target"
        by blast
      obtain props h2 where a: "alloc (HDict (other_props kvs)) h1 = (props, h2)"
        by (cases "alloc (HDict (other_props kvs)) h1")
      from rel p1 have "repr_items h1 kvs tkvs"
        by (rule repr_items_prefix)
      then have "repr_items h1 (other_props kvs) (other_props tkvs)"
        by (rule repr_items_other_props)
      from merge_props_h_refines [OF r1 this a] obtain resolved' h3 where
        mg: "merge_props_h resolved props h2 = Some (resolved', h3)" and p3: "prefix h2 h3"
        and r3: "repr h3 resolved' (merge_props target (other_props tkvs))"
        by blast
      from p1 alloc_prefix [OF a] p3 have p03: "prefix h h3"
        by (meson prefix_order.trans)
      from root p03 have "repr h3 root_doc r"
        by (rule repr_prefix)
      moreover from r3 have "repr h3 resolved' (merge_props (deepcopy target) (other_props tkvs))"
        by (simp add: deepcopy_def)
      ultimately obtain rv' h' where
        run: "expand_refs_h m B resolved' root_doc (path @ ''->'' @ format_value B ref_path)
                (depth + 1) (insert ?key visited_paths) h3 = Some (rv', h')"
        and p4: "prefix h3 h'"
        and r4: "repr h' rv' (expand_refs B (merge_props (deepcopy target) (other_props tkvs)) r
                  (path @ ''->'' @ format_value B ref_path) (depth + 1)
                  (insert ?key visited_paths))"
        using sub unfolding refines_at_def by blast
      from p03 p4 have "prefix h h'"
        by (rule prefix_order.trans)
      with r4 run fresh deep some v ob rv dec res dc a mg Inr show ?thesis
        by (auto simp: expand_refs_ref)
    qed
  qed
qed

lemma expand_refs_h_refines_fuel:
  "\<exists>n. \<forall>m\<ge>n. refines_at m B t r path depth visited_paths"
proof (induction B t r path depth visited_paths rule: expand_refs.induct)
  case (1 B obj root_doc path depth visited_paths)
  have suc: "\<exists>n. \<forall>m\<ge>n. F m" if "\<forall>m\<ge>n0. F (Suc m)" for F and n0 :: nat
  proof -
    have "F m" if "Suc n0 \<le> m" for m
      using that \<open>\<forall>m\<ge>n0. F (Suc m)\<close> by (cases m) auto
    then show ?thesis
      by blast
  qed
  show ?case
  proof (cases "MAX_DEPTH < depth")
    case True
    then have "\<forall>m\<ge>0. refines_at (Suc m) B obj root_doc path depth visited_paths"
      by (simp add: refines_too_deep)
    then show ?thesis
      by (rule suc)
  next
    case False
    then have deep: "depth \<le> MAX_DEPTH"
      by simp
    show ?thesis
    proof (cases obj)
      case (JList ts)
      have "\<exists>n. \<forall>m\<ge>n. \<forall>x \<in> set (enumerate 0 ts).
          refines_at m B (snd x) root_doc (path @ ''['' @ str_of_nat (fst x) @ '']'') depth
            visited_paths"
      proof (rule fuel_for_all)
        fix x
        assume "x \<in> set (enumerate 0 ts)"
        from 1(1) [OF False JList this, of "fst x" "snd x"]
        show "\<exists>n. \<forall>m\<ge>n. refines_at m B (snd x) root_doc
            (path @ ''['' @ str_of_nat (fst x) @ '']'') depth visited_paths"
          by simp
      qed
      then obtain n0 where "\<forall>m\<ge>n0. \<forall>x \<in> set (enumerate 0 ts).
          refines_at m B (snd x) root_doc (path @ ''['' @ str_of_nat (fst x) @ '']'') depth
            visited_paths"
        by blast
      then have "\<forall>m\<ge>n0. refines_at (Suc m) B (JList ts) root_doc path depth visited_paths"
        by (intro allI impI refines_list [OF deep]) force
      with JList show ?thesis
        by (auto intro: suc)
    next
      case (JDict tkvs)
      show ?thesis
      proof (cases "map_of tkvs ''$ref''")
        case None
        have "\<exists>n. \<forall>m\<ge>n. \<forall>x \<in> set tkvs.
            refines_at m B (snd x) root_doc (path @ ''.'' @ fst x) depth visited_paths"
        proof (rule fuel_for_all)
          fix x
          assume "x \<in> set tkvs"
          from 1(2) [OF False JDict None this, of "fst x" "snd x"]
          show "\<exists>n. \<forall>m\<ge>n. refines_at m B (snd x) root_doc (path @ ''.'' @ fst x) depth
              visited_paths"
            by simp
        qed
        then obtain n0 where "\<forall>m\<ge>n0. \<forall>x \<in> set tkvs.
            refines_at m B (snd x) root_doc (path @ ''.'' @ fst x) depth visited_paths"
          by blast
        then have "\<forall>m\<ge>n0. refines_at (Suc m) B (JDict tkvs) root_doc path depth visited_paths"
          by (intro allI impI refines_dict [OF deep None]) force
        with JDict show ?thesis
          by (auto intro: suc)
      next
        case (Some ref_path)
        let ?key = "path @ '':'' @ format_value B ref_path"
        let ?sub = "\<lambda>target m. refines_at m B (merge_props (deepcopy target) (other_props tkvs))
            root_doc (path @ ''->'' @ format_value B ref_path) (depth + 1)
            (insert ?key visited_paths)"
        have "\<exists>n0. \<forall>m\<ge>n0. height ref_path \<le> m \<and>
            (\<forall>target. ?key \<notin> visited_paths \<longrightarrow>
               resolve_ref_pointer B ref_path root_doc = Inr target \<longrightarrow>
               height target \<le> m \<and> ?sub target m)"
        proof (cases "?key \<notin> visited_paths \<and> (\<exists>target. resolve_ref_pointer B ref_path root_doc
            = Inr target)")
          case True
          then obtain target where fresh: "?key \<notin> visited_paths"
            and res: "resolve_ref_pointer B ref_path root_doc = Inr target"
            by blast
          from 1(3) [OF False JDict Some refl fresh res] obtain n1 where
            "\<forall>m\<ge>n1. ?sub target m"
            by blast
          with res have "\<forall>m\<ge>max (height ref_path) (max (height target) n1).
              height ref_path \<le> m \<and>
              (\<forall>target. ?key \<notin> visited_paths \<longrightarrow>
                 resolve_ref_pointer B ref_path root_doc = Inr target \<longrightarrow>
                 height target \<le> m \<and> ?sub target m)"
            by auto
          then show ?thesis
            by blast
        next
          case False
          then have "\<forall>m\<ge>height ref_path. height ref_path \<le> m \<and>
              (\<forall>target. ?key \<notin> visited_paths \<longrightarrow>
                 resolve_ref_pointer B ref_path root_doc = Inr target \<longrightarrow>
                 height target \<le> m \<and> ?sub target m)"
            by auto
          then show ?thesis
            by blast
        qed
        then obtain n0 where n0: "\<forall>m\<ge>n0. height ref_path \<le> m \<and>
            (\<forall>target. ?key \<notin> visited_paths \<longrightarrow>
               resolve_ref_pointer B ref_path root_doc = Inr target \<longrightarrow>
               height target \<le> m \<and> ?sub target m)"
          by blast
        have "\<forall>m\<ge>n0. refines_at (Suc m) B (JDict tkvs) root_doc path depth visited_paths"
        proof (intro allI impI)
          fix m
          assume "n0 \<le> m"
          with n0 show "refines_at (Suc m) B (JDict tkvs) root_doc path depth visited_paths"
            by (intro refines_ref [OF deep Some]) auto
        qed
        with JDict show ?thesis
          by (auto intro: suc)
      qed
    qed (auto intro!: suc [of 0] refines_scalar [OF deep])
  qed
qed


lemma load_json_repr:
  "load_json t h = (v, h') \<Longrightarrow> prefix h h' \<and> repr h' v t"
  "load_items tkvs h = (kvs, h') \<Longrightarrow> prefix h h' \<and> repr_items h' kvs tkvs"
  "load_list ts h = (vs, h') \<Longrightarrow> prefix h h' \<and> list_all2 (repr h') vs ts"
proof (induction t h and tkvs h and ts h arbitrary: v h' and kvs h' and vs h'
    rule: load_json_load_items_load_list.induct)
  case (6 xs h)
  obtain ys h1 where l: "load_list xs h = (ys, h1)"
    by (cases "load_list xs h")
  with 6 have a: "alloc (HList ys) h1 = (v, h')" and p: "prefix h h1"
    and r: "list_all2 (repr h1) ys xs"
    by auto
  from repr_alloc_list [OF r a] alloc_prefix [OF a] p show ?case
    by (auto intro: prefix_order.trans)
next
  case (7 kvs0 h)
  obtain ys h1 where l: "load_items kvs0 h = (ys, h1)"
    by (cases "load_items kvs0 h")
  with 7 have a: "alloc (HDict ys) h1 = (v, h')" and p: "prefix h h1"
    and r: "repr_items h1 ys kvs0"
    by auto
  from repr_alloc_dict [OF r a] alloc_prefix [OF a] p show ?case
    by (auto intro: prefix_order.trans)
next
  case (9 k t kvs0 h)
  obtain v1 h1 where 1: "load_json t h = (v1, h1)"
    by (cases "load_json t h")
  obtain ys h2 where 2: "load_items kvs0 h1 = (ys, h2)"
    by (cases "load_items kvs0 h1")
  from 9(1) [OF 1] have p1: "prefix h h1" and r1: "repr h1 v1 t"
    by simp_all
  from 9(2) [OF 1 [symmetric] 2] have p2: "prefix h1 h2" and r2: "repr_items h2 ys kvs0"
    by simp_all
  from 9(3) 1 2 have "kvs = (k, v1) # ys" and "h' = h2"
    by simp_all
  with p1 p2 r1 r2 show ?case
    by (auto simp: repr_items_def intro: prefix_order.trans repr_prefix)
next
  case (11 t ts0 h)
  obtain v1 h1 where 1: "load_json t h = (v1, h1)"
    by (cases "load_json t h")
  obtain ys h2 where 2: "load_list ts0 h1 = (ys, h2)"
    by (cases "load_list ts0 h1")
  from 11(1) [OF 1] have p1: "prefix h h1" and r1: "repr h1 v1 t"
    by simp_all
  from 11(2) [OF 1 [symmetric] 2] have p2: "prefix h1 h2" and r2: "list_all2 (repr h2) ys ts0"
    by simp_all
  from 11(3) 1 2 have "vs = v1 # ys" and "h' = h2"
    by simp_all
  with p1 p2 r1 r2 show ?case
    by (auto intro: prefix_order.trans repr_prefix)
qed (auto simp: repr_def height.simps repr_items_def)

section \<open>The root document is not mutated: the claim\<close>

text \<open>
  Claim C8. When a call of \<open>expand_refs\<close> returns, the store is the store before the
  call followed by the objects that the call has allocated: every object that existed
  before is unchanged, so the root document stands for the same tree as before, and a
  dict or list that the call returns is one of the new objects. And the call does
  return: on every store in which the root document and the object stand for trees,
  with enough fuel, it returns a value that stands for what \<open>expand_refs\<close> returns on
  these trees, in a store where the root document still stands for its tree.
\<close>

theorem root_not_mutated:
  "(expand_refs_h n B obj root_doc path depth visited_paths h = Some (v, h') \<longrightarrow>
      prefix h h' \<and>
      (\<forall>a ob. heap_get h a = Some ob \<longrightarrow> heap_get h' a = Some ob) \<and>
      (\<forall>d. repr h root_doc d \<longrightarrow> repr h' root_doc d) \<and>
      (\<forall>a. v = VRef a \<longrightarrow> length h \<le> a \<and> a < length h')) \<and>
   (repr h root_doc r \<and> repr h obj t \<longrightarrow>
      (\<exists>k. \<forall>m\<ge>k. \<exists>w h1.
          expand_refs_h m B obj root_doc path depth visited_paths h = Some (w, h1) \<and>
          repr h1 w (expand_refs B t r path depth visited_paths) \<and> repr h1 root_doc r))"
proof (intro conjI impI)
  assume run: "expand_refs_h n B obj root_doc path depth visited_paths h = Some (v, h')"
  then have p: "prefix h h'"
    by (rule expand_refs_h_prefix)
  then show "prefix h h'" .
  from p show "\<forall>a ob. heap_get h a = Some ob \<longrightarrow> heap_get h' a = Some ob"
    by (auto intro: heap_get_prefix)
  from p show "\<forall>d. repr h root_doc d \<longrightarrow> repr h' root_doc d"
    by (auto intro: repr_prefix)
  from run show "\<forall>a. v = VRef a \<longrightarrow> length h \<le> a \<and> a < length h'"
    by (auto dest: expand_refs_h_fresh)
next
  assume rep: "repr h root_doc r \<and> repr h obj t"
  from expand_refs_h_refines_fuel [of B t r path depth visited_paths] obtain k where
    k: "\<forall>m\<ge>k. refines_at m B t r path depth visited_paths"
    by blast
  have "\<exists>w h1. expand_refs_h m B obj root_doc path depth visited_paths h = Some (w, h1) \<and>
      repr h1 w (expand_refs B t r path depth visited_paths) \<and> repr h1 root_doc r"
    if "k \<le> m" for m
  proof -
    from k that rep obtain w h1 where
      "expand_refs_h m B obj root_doc path depth visited_paths h = Some (w, h1)"
      "prefix h h1" "repr h1 w (expand_refs B t r path depth visited_paths)"
      unfolding refines_at_def by blast
    with rep show ?thesis
      by (auto intro: repr_prefix)
  qed
  then show "\<exists>k. \<forall>m\<ge>k. \<exists>w h1.
      expand_refs_h m B obj root_doc path depth visited_paths h = Some (w, h1) \<and>
      repr h1 w (expand_refs B t r path depth visited_paths) \<and> repr h1 root_doc r"
    by blast
qed

theorem root_not_mutated_witness:
  "load_json tiny [] = (VRef 3, tiny_heap) \<and>
   repr tiny_heap (VRef 3) tiny \<and>
   expand_refs_h 6 sample_builtins (VRef 3) (VRef 3) ''root'' 0 {} tiny_heap =
     Some (VRef 12, tiny_heap @ tiny_heap_new) \<and>
   prefix tiny_heap (tiny_heap @ tiny_heap_new) \<and>
   repr (tiny_heap @ tiny_heap_new) (VRef 3) tiny \<and>
   length tiny_heap \<le> 12 \<and>
   (\<exists>k. \<forall>m\<ge>k. \<exists>w h1.
      expand_refs_h m sample_builtins (VRef 3) (VRef 3) ''root'' 0 {} tiny_heap = Some (w, h1) \<and>
      repr h1 w (expand_refs sample_builtins tiny tiny ''root'' 0 {}) \<and>
      repr h1 (VRef 3) tiny)"
proof -
  have load: "load_json tiny [] = (VRef 3, tiny_heap)"
    by (simp add: tiny_def tiny_heap_def alloc_def)
  from load_json_repr(1) [OF load] have before: "repr tiny_heap (VRef 3) tiny"
    by simp
  have run: "expand_refs_h 6 sample_builtins (VRef 3) (VRef 3) ''root'' 0 {} tiny_heap =
      Some (VRef 12, tiny_heap @ tiny_heap_new)"
    by code_simp
  note frame = root_not_mutated [where n = 6 and B = sample_builtins and obj = "VRef 3"
      and root_doc = "VRef 3" and path = "''root''" and depth = 0 and visited_paths = "{}"
      and h = tiny_heap and v = "VRef 12" and h' = "tiny_heap @ tiny_heap_new"
      and r = tiny and t = tiny, THEN conjunct1, rule_format, OF run]
  note total = root_not_mutated [where B = sample_builtins and obj = "VRef 3"
      and root_doc = "VRef 3" and path = "''root''" and depth = 0 and visited_paths = "{}"
      and h = tiny_heap and r = tiny and t = tiny, THEN conjunct2, rule_format,
      OF conjI [OF before before]]
  from frame before have after: "repr (tiny_heap @ tiny_heap_new) (VRef 3) tiny"
    and fresh: "length tiny_heap \<le> 12"
    by blast+
  from load before run after fresh total show ?thesis
    by simp
qed

end
